theory Spec2Isabelle
  imports Main "HOL-Library.Word" "HOL-Library.Char_ord" "HOL-Library.List_Lexorder"
begin

unbundle bit_operations_syntax

section \<open>Machine types\<close>

text \<open>
  The C++ sources use \<open>uint8_t\<close>, \<open>uint32_t\<close> and the engine's \<open>int32\<close>. They are
  modelled as words of the same width; \<open>size_t\<close> values (vector sizes and loop counters,
  64 bits wide on the x64 targets of the project) are natural numbers, and a conversion
  to \<open>uint32_t\<close> is \<open>word_of_nat\<close>, which truncates as \<open>static_cast\<close> does.
  An \<open>int32\<close> is read with \<open>sint\<close> and compared with the signed order \<open><s\<close>.
\<close>

type_synonym uint8 = "8 word"
type_synonym uint32 = "32 word"
type_synonym int32 = "32 word"

section \<open>MLEncryption.h\<close>

text \<open>
  \<open>struct EncryptionKey\<close>: \<open>std::array<uint8_t, 32> Key\<close> and
  \<open>std::array<uint8_t, 16> IV\<close>. The arrays are lists; their fixed sizes are the
  invariant \<open>EncryptionKey_ok\<close>, and \<open>Key.Key.size()\<close>, \<open>Key.IV.size()\<close> are the
  constants 32 and 16.
\<close>

record EncryptionKey =
  Key :: "uint8 list"
  IV :: "uint8 list"

definition EncryptionKey_ok :: "EncryptionKey \<Rightarrow> bool" where
  "EncryptionKey_ok K \<longleftrightarrow> length (Key K) = 32 \<and> length (IV K) = 16"

text \<open>The default constructor fills both arrays with zero.\<close>

definition EncryptionKey_default :: EncryptionKey where
  "EncryptionKey_default = \<lparr>Key = replicate 32 0, IV = replicate 16 0\<rparr>"

record EncryptedModelData =
  EncryptedData :: "uint8 list"
  OriginalSize :: uint32
  EncryptedSize :: uint32
  ModelVersion :: uint32
  ModelName :: string

definition EncryptedModelData_default :: EncryptedModelData where
  "EncryptedModelData_default =
     \<lparr>EncryptedData = [], OriginalSize = 0, EncryptedSize = 0, ModelVersion = 1, ModelName = []\<rparr>"

text \<open>
  The body of both XOR loops:
  \<open>Data[i] ^ Key.Key[i % Key.Key.size()] ^ Key.IV[i % Key.IV.size()]\<close>.
\<close>

definition XorByte :: "EncryptionKey \<Rightarrow> nat \<Rightarrow> uint8 \<Rightarrow> uint8" where
  "XorByte K i b = b XOR (Key K ! (i mod 32)) XOR (IV K ! (i mod 16))"

text \<open>\<open>for (size_t i = 0; i < Data.size(); ++i) Result.EncryptedData[i] = ...\<close>\<close>

function Encrypt_loop :: "uint8 list \<Rightarrow> EncryptionKey \<Rightarrow> nat \<Rightarrow> uint8 list \<Rightarrow> uint8 list" where
  "Encrypt_loop Data K i Res =
     (if i < length Data
      then Encrypt_loop Data K (i + 1) (Res[i := XorByte K i (Data ! i)])
      else Res)"
  by pat_completeness auto
termination
  by (relation "measure (\<lambda>(Data, K, i, Res). length Data - i)") auto

declare Encrypt_loop.simps [simp del]

definition Encrypt :: "uint8 list \<Rightarrow> EncryptionKey \<Rightarrow> EncryptedModelData" where
  "Encrypt Data K =
     (let Result0 = EncryptedModelData_default
                      \<lparr>OriginalSize := word_of_nat (length Data),
                       EncryptedData := replicate (length Data) 0\<rparr>;
          Result1 = Result0\<lparr>EncryptedData := Encrypt_loop Data K 0 (EncryptedData Result0)\<rparr>
      in Result1\<lparr>EncryptedSize := word_of_nat (length (EncryptedData Result1))\<rparr>)"

text \<open>
  \<open>std::vector<uint8_t> Result(EncryptedData.OriginalSize)\<close>, then
  \<open>for (size_t i = 0; i < EncryptedData.EncryptedData.size() && i < Result.size(); ++i)\<close>.
\<close>

function Decrypt_loop :: "EncryptedModelData \<Rightarrow> EncryptionKey \<Rightarrow> nat \<Rightarrow> uint8 list \<Rightarrow> uint8 list" where
  "Decrypt_loop E K i Res =
     (if i < length (EncryptedData E) \<and> i < length Res
      then Decrypt_loop E K (i + 1) (Res[i := XorByte K i (EncryptedData E ! i)])
      else Res)"
  by pat_completeness auto
termination
  by (relation "measure (\<lambda>(E, K, i, Res). length Res - i)") auto

declare Decrypt_loop.simps [simp del]

definition Decrypt :: "EncryptedModelData \<Rightarrow> EncryptionKey \<Rightarrow> uint8 list" where
  "Decrypt E K = Decrypt_loop E K 0 (replicate (unat (OriginalSize E)) 0)"

text \<open>
  \<open>GenerateKey\<close>: \<open>Key.Key[i] = static_cast<uint8_t>((i * 7 + 13) ^ 0xAB)\<close> and
  \<open>Key.IV[i] = static_cast<uint8_t>((i * 11 + 17) ^ 0xCD)\<close>.
\<close>

definition GenerateKey :: EncryptionKey where
  "GenerateKey =
     \<lparr>Key = map (\<lambda>i. word_of_nat (i * 7 + 13) XOR 0xAB) [0..<32],
      IV = map (\<lambda>i. word_of_nat (i * 11 + 17) XOR 0xCD) [0..<16]\<rparr>"

text \<open>
  \<open>Security::VerifyModel\<close>. The comparison of the \<open>uint32_t\<close> field with the
  \<open>size_t\<close> vector size converts the field to \<open>size_t\<close>.
\<close>

definition VerifyModel :: "EncryptedModelData \<Rightarrow> bool" where
  "VerifyModel Model \<longleftrightarrow>
     OriginalSize Model > 0 \<and> EncryptedSize Model > 0 \<and>
     unat (EncryptedSize Model) = length (EncryptedData Model)"

section \<open>The encrypted model runtime\<close>

record ModelMetadata =
  MetaModelName :: string
  MetaModelVersion :: string
  Framework :: string
  InputNames :: "string list"
  OutputNames :: "string list"

record EncryptedModelRuntime =
  EncryptedModel :: EncryptedModelData
  DecryptedModel :: "uint8 list"
  RuntimeKey :: EncryptionKey
  Metadata :: ModelMetadata
  bIsLoaded :: bool

text \<open>The constructor: every member default-constructed, \<open>bIsLoaded(false)\<close>.\<close>

definition EncryptedModelRuntime_new :: EncryptedModelRuntime where
  "EncryptedModelRuntime_new =
     \<lparr>EncryptedModel = EncryptedModelData_default,
      DecryptedModel = [],
      RuntimeKey = EncryptionKey_default,
      Metadata = \<lparr>MetaModelName = [], MetaModelVersion = [], Framework = [],
                  InputNames = [], OutputNames = []\<rparr>,
      bIsLoaded = False\<rparr>"

text \<open>
  \<open>LoadModel\<close> returns its \<open>bool\<close> together with the updated object. The second
  component of the pair is the object after the call.
\<close>

definition LoadModel ::
  "EncryptedModelRuntime \<Rightarrow> EncryptedModelData \<Rightarrow> EncryptionKey \<Rightarrow> bool \<times> EncryptedModelRuntime" where
  "LoadModel R Model DecryptionKey =
     (if \<not> VerifyModel Model then (False, R)
      else
        let R1 = R\<lparr>EncryptedModel := Model, RuntimeKey := DecryptionKey\<rparr>;
            R2 = R1\<lparr>DecryptedModel := Decrypt (EncryptedModel R1) (RuntimeKey R1)\<rparr>
        in if DecryptedModel R2 = [] \<or>
              length (DecryptedModel R2) \<noteq> unat (OriginalSize (EncryptedModel R2))
           then (False, R2)
           else (True, R2\<lparr>bIsLoaded := True\<rparr>))"

definition IsLoaded :: "EncryptedModelRuntime \<Rightarrow> bool" where
  "IsLoaded R = bIsLoaded R"

definition Unload :: "EncryptedModelRuntime \<Rightarrow> EncryptedModelRuntime" where
  "Unload R = R\<lparr>DecryptedModel := [], bIsLoaded := False\<rparr>"

text \<open>
  The data of \<open>MLDemo::DemoModelEncryption\<close> in SDKExample/MLExample.cpp: the model
  bytes \<open>{ 0x01, 0x02, 0x03, 0x04, 0x05 }\<close>, encrypted under the key that
  \<open>GenerateKey\<close> computes.
\<close>

definition DemoModelData :: "uint8 list" where
  "DemoModelData = [1, 2, 3, 4, 5]"

definition DemoEncryptedModel :: EncryptedModelData where
  "DemoEncryptedModel = Encrypt DemoModelData GenerateKey"

definition DemoLoadedRuntime :: EncryptedModelRuntime where
  "DemoLoadedRuntime = snd (LoadModel EncryptedModelRuntime_new DemoEncryptedModel GenerateKey)"

section \<open>PredefinedMembers.h\<close>

record PredefinedMember =
  Comment :: string
  Type :: string
  Name :: string
  Offset :: int32
  Size :: int32
  ArrayDim :: int32
  Alignment :: int32
  bIsStatic :: bool
  bIsZeroSizeMember :: bool
  bIsBitField :: bool
  BitIndex :: uint8
  BitCount :: uint8
  DefaultValue :: string

text \<open>
  \<open>UEProperty\<close> is declared in Unreal/UnrealObjects.h, which is not among the sources.
  \<open>CompareUnrealProperties\<close> observes three things of a property, and they are the
  fields of the record: \<open>IsA(EClassCastFlags::BoolProperty)\<close>, \<open>GetOffset()\<close> (an
  \<open>int32\<close>) and \<open>Cast<UEBoolProperty>().GetBitIndex()\<close> (a \<open>uint8\<close>).
\<close>

record UEProperty =
  IsBoolProperty :: bool
  GetOffset :: int32
  GetBitIndex :: uint8

definition CompareUnrealProperties :: "UEProperty \<Rightarrow> UEProperty \<Rightarrow> bool" where
  "CompareUnrealProperties Left' Right' =
     (if IsBoolProperty Left' \<and> IsBoolProperty Right'
      then (if GetOffset Left' = GetOffset Right'
            then GetBitIndex Left' < GetBitIndex Right'
            else GetOffset Left' <s GetOffset Right')
      else GetOffset Left' <s GetOffset Right')"

text \<open>
  \<open>std::string\<close>'s \<open>operator<\<close> is the lexicographic order on the bytes, which is
  the order of \<open>string\<close> here. \<open>Left.bIsStatic > Right.bIsStatic\<close> on \<open>bool\<close> holds
  when the left flag is set and the right one is not.
\<close>

definition ComparePredefinedMembers :: "PredefinedMember \<Rightarrow> PredefinedMember \<Rightarrow> bool" where
  "ComparePredefinedMembers Left' Right' =
     (if bIsStatic Left' \<and> bIsStatic Right' then Name Left' < Name Right'
      else if bIsStatic Left' \<or> bIsStatic Right' then bIsStatic Left' \<and> \<not> bIsStatic Right'
      else Offset Left' <s Offset Right')"

text \<open>
  The relation that a comparator \<open>cmp\<close> induces on elements it does not order:
  neither compares less than the other. A strict weak ordering needs it transitive.
\<close>

definition incomparable :: "('a \<Rightarrow> 'a \<Rightarrow> bool) \<Rightarrow> 'a \<Rightarrow> 'a \<Rightarrow> bool" where
  "incomparable cmp a b \<longleftrightarrow> \<not> cmp a b \<and> \<not> cmp b a"

definition strict_weak_ordering :: "('a \<Rightarrow> 'a \<Rightarrow> bool) \<Rightarrow> bool" where
  "strict_weak_ordering cmp \<longleftrightarrow>
     (\<forall>a. \<not> cmp a a) \<and>
     (\<forall>a b c. cmp a b \<and> cmp b c \<longrightarrow> cmp a c) \<and>
     (\<forall>a b c. incomparable cmp a b \<and> incomparable cmp b c \<longrightarrow> incomparable cmp a c)"

text \<open>
  Three properties at offset 0: two \<open>BoolProperty\<close> bit fields with bit indices 1 and
  0, and one property that is no \<open>BoolProperty\<close>; a fourth property at offset 4.
  \<open>BitMember N B\<close> is a non-static predefined bit-field member at offset 0, named
  \<open>N\<close>, with bit index \<open>B\<close>; \<open>StaticMember N\<close> is a static member named \<open>N\<close>.
\<close>

definition BoolBit1 :: UEProperty where
  "BoolBit1 = \<lparr>IsBoolProperty = True, GetOffset = 0, GetBitIndex = 1\<rparr>"

definition BoolBit0 :: UEProperty where
  "BoolBit0 = \<lparr>IsBoolProperty = True, GetOffset = 0, GetBitIndex = 0\<rparr>"

definition IntAt0 :: UEProperty where
  "IntAt0 = \<lparr>IsBoolProperty = False, GetOffset = 0, GetBitIndex = 0\<rparr>"

definition BitMember :: "string \<Rightarrow> uint8 \<Rightarrow> PredefinedMember" where
  "BitMember N B =
     \<lparr>Comment = [], Type = ''uint8'', Name = N, Offset = 0, Size = 1, ArrayDim = 1,
      Alignment = 1, bIsStatic = False, bIsZeroSizeMember = False, bIsBitField = True,
      BitIndex = B, BitCount = 1, DefaultValue = []\<rparr>"

definition StaticMember :: "string \<Rightarrow> PredefinedMember" where
  "StaticMember N = (BitMember N 0)\<lparr>bIsStatic := True, bIsBitField := False\<rparr>"

definition IntAt4 :: UEProperty where
  "IntAt4 = \<lparr>IsBoolProperty = False, GetOffset = 4, GetBitIndex = 0\<rparr>"

text \<open>
  A list in which no element compares less than its predecessor under the comparator
  \<open>cmp\<close>: the check of neighbouring elements that \<open>std::is_sorted\<close> makes. Nothing
  is said here of elements that are not neighbours. The two lists below are examples.
\<close>

fun is_sorted :: "('a \<Rightarrow> 'a \<Rightarrow> bool) \<Rightarrow> 'a list \<Rightarrow> bool" where
  "is_sorted cmp [] = True"
| "is_sorted cmp [x] = True"
| "is_sorted cmp (x # y # xs) = (\<not> cmp y x \<and> is_sorted cmp (y # xs))"

definition DemoMembers :: "PredefinedMember list" where
  "DemoMembers = [StaticMember ''A'', StaticMember ''B'', BitMember ''B'' 1, BitMember ''A'' 0]"

definition DemoProperties :: "UEProperty list" where
  "DemoProperties = [BoolBit0, BoolBit1, IntAt4]"

section \<open>The dependency graph walk\<close>

text \<open>
  Modelled from the spec: the kinds of a dependency edge (section 3). The walker,
  Generator/Private/Managers/DependencyManager.cpp, is not among the sources.
\<close>

datatype edge_kind = Inherits | MemberValue | MemberPointer

text \<open>
  Modelled from the spec: a dependency edge \<open>(from-node, to-node, kind)\<close> over node
  indices (section 3), together with what section 4.1 consults when an edge closes a
  cycle: whether the declared storage of the member behind the edge is a reference or
  pointer. The edge \<open>from_node \<rightarrow> to_node\<close> says that \<open>from_node\<close> depends on
  \<open>to_node\<close>.
\<close>

record dep_edge =
  from_node :: nat
  to_node :: nat
  kind :: edge_kind
  pointer_storage :: bool

definition edge :: "nat \<Rightarrow> nat \<Rightarrow> edge_kind \<Rightarrow> bool \<Rightarrow> dep_edge" where
  "edge a b k p = \<lparr>from_node = a, to_node = b, kind = k, pointer_storage = p\<rparr>"

text \<open>
  Modelled from the spec: only \<open>member-value\<close> and \<open>inherits\<close> edges force the
  dependency to be emitted first (sections 3 and 4.1).
\<close>

definition gates :: "dep_edge \<Rightarrow> bool" where
  "gates e \<longleftrightarrow> kind e = MemberValue \<or> kind e = Inherits"

text \<open>
  Modelled from the spec: the two fatal errors of section 7 that the walk raises.
  \<open>UnresolvableCycle\<close> names both nodes and the cyclic edge (its index in the edge
  table); \<open>DanglingReference\<close> names the referring node and the edge.
\<close>

datatype fatal = UnresolvableCycle nat nat nat | DanglingReference nat nat

text \<open>
  Modelled from the spec: the state of the Dependency Graph component (section 4.1).
  Each node carries two epoch-tagged markers, "currently on this walk's stack"
  (\<open>stack_stamp\<close>) and "already emitted this run" (\<open>emit_stamp\<close>), compared against the
  run-scoped counter \<open>epoch\<close>; no container is cleared between walks. \<open>frames\<close> is the
  stack of the depth-first walk, the top first: a node with the indices of its edges
  still to be examined. \<open>emission\<close> records the calls of \<open>on_visit\<close> in order,
  \<open>edges\<close> is the edge table with the current kinds, and \<open>forward_declared\<close> lists the
  edges (members) that have to be declared by forward reference.
\<close>

record dep_graph =
  edges :: "dep_edge list"
  epoch :: nat
  stack_stamp :: "nat \<Rightarrow> nat"
  emit_stamp :: "nat \<Rightarrow> nat"
  frames :: "(nat \<times> nat list) list"
  emission :: "nat list"
  forward_declared :: "nat list"

text \<open>
  Modelled from the spec: the component before its first run, holding the edges that
  were built from the node set: the counter at 0 and no marker set.
\<close>

definition new_graph :: "dep_edge list \<Rightarrow> dep_graph" where
  "new_graph es =
     \<lparr>edges = es, epoch = 0, stack_stamp = (\<lambda>n. 0), emit_stamp = (\<lambda>n. 0), frames = [],
      emission = [], forward_declared = []\<rparr>"

text \<open>
  Modelled from the spec: the edges of a node in the order the walk examines them,
  "resolved by ascending stable node index before visiting" (section 4.1, Determinism):
  the indices of the edges that leave \<open>n\<close>, sorted by the index of their target.
\<close>

definition deps_of :: "dep_edge list \<Rightarrow> nat \<Rightarrow> nat list" where
  "deps_of es n =
     sort_key (\<lambda>i. to_node (es ! i)) (filter (\<lambda>i. from_node (es ! i) = n) [0..<length es])"

text \<open>
  Modelled from the spec: what one step of the walk does: the stack is empty and the
  walk from this root is done, a fatal error aborts the run, or the walk goes on.
\<close>

datatype step_result = Done | Fatal fatal | Next dep_graph

text \<open>
  Modelled from the spec: one step of the depth-first walk of section 4.1. A node whose
  edges are all examined is emitted (post-order). An edge whose target is not in the
  node set is a dangling reference (section 6). A \<open>member-pointer\<close> edge is passed
  over, as is an edge to a node already emitted. An edge to a node marked "on stack"
  has closed a cycle: it is reclassified from \<open>member-value\<close> to \<open>member-pointer\<close>
  and its member marked for forward declaration if and only if the member's declared
  storage is a reference or pointer; otherwise the cycle is unresolvable. Any other
  target is marked "on stack" and walked first.
\<close>

definition step :: "nat list \<Rightarrow> dep_graph \<Rightarrow> step_result" where
  "step ns g =
     (case frames g of
        [] \<Rightarrow> Done
      | (n, []) # fs \<Rightarrow>
          Next (g\<lparr>frames := fs, emit_stamp := (emit_stamp g)(n := epoch g),
                  emission := emission g @ [n]\<rparr>)
      | (n, i # rest) # fs \<Rightarrow>
          (let e = edges g ! i; d = to_node e; g1 = g\<lparr>frames := (n, rest) # fs\<rparr> in
           if d \<notin> set ns then Fatal (DanglingReference n i)
           else if kind e = MemberPointer then Next g1
           else if emit_stamp g d = epoch g then Next g1
           else if stack_stamp g d = epoch g then
             (if kind e = MemberValue \<and> pointer_storage e
              then Next (g1\<lparr>edges := (edges g)[i := e\<lparr>kind := MemberPointer\<rparr>],
                           forward_declared := forward_declared g @ [i]\<rparr>)
              else Fatal (UnresolvableCycle n d i))
           else Next (g1\<lparr>frames := (d, deps_of (edges g) d) # (n, rest) # fs,
                        stack_stamp := (stack_stamp g)(d := epoch g)\<rparr>)))"

text \<open>
  The two quantities that decrease along the walk: the nodes of the node set that carry
  neither marker of this epoch, and the edges still held by the stack.
\<close>

definition unmarked :: "nat list \<Rightarrow> dep_graph \<Rightarrow> nat" where
  "unmarked ns g =
     length (filter (\<lambda>n. stack_stamp g n \<noteq> epoch g \<and> emit_stamp g n \<noteq> epoch g) ns)"

definition pending :: "dep_graph \<Rightarrow> nat" where
  "pending g = sum_list (map (\<lambda>f. Suc (length (snd f))) (frames g))"

text \<open>
  Modelled from the spec: the depth-first walk from the node on the stack, run until the
  stack is empty or a fatal error aborts it (section 4.1).
\<close>

function visit :: "nat list \<Rightarrow> dep_graph \<Rightarrow> fatal + dep_graph" where
  "visit ns g =
     (case step ns g of
        Done \<Rightarrow> Inr g
      | Fatal f \<Rightarrow> Inl f
      | Next g' \<Rightarrow> visit ns g')"
  by pat_completeness auto
termination
proof (relation "inv_image (less_than <*lex*> less_than) (\<lambda>(ns, g). (unmarked ns g, pending g))")
  show "wf (inv_image (less_than <*lex*> less_than) (\<lambda>(ns, g). (unmarked ns g, pending g)))"
    by (intro wf_inv_image wf_lex_prod wf_less_than)
next
  fix ns :: "nat list" and g g' :: dep_graph
  assume st: "step ns g = Next g'"
  have mono: "length (filter P xs) \<le> length (filter Q xs)" if "\<And>x. P x \<Longrightarrow> Q x"
    for P Q :: "nat \<Rightarrow> bool" and xs
    using that by (induction xs) auto
  have strict: "length (filter P xs) < length (filter Q xs)"
    if "\<And>x. P x \<Longrightarrow> Q x" and "d \<in> set xs" and "Q d" and "\<not> P d"
    for P Q :: "nat \<Rightarrow> bool" and xs d
    using that
  proof (induction xs)
    case Nil
    then show ?case by simp
  next
    case (Cons a xs)
    show ?case
    proof (cases "a = d")
      case True
      with Cons.prems mono[of P Q xs] show ?thesis by auto
    next
      case False
      with Cons show ?thesis by auto
    qed
  qed
  show "((ns, g'), (ns, g)) \<in>
          inv_image (less_than <*lex*> less_than) (\<lambda>(ns, g). (unmarked ns g, pending g))"
  proof (cases "frames g")
    case Nil
    with st show ?thesis by (simp add: step_def)
  next
    case (Cons f fs)
    obtain n rem where f: "f = (n, rem)" by (cases f)
    show ?thesis
    proof (cases rem)
      case Nil
      with st Cons f have g': "g' = g\<lparr>frames := fs, emit_stamp := (emit_stamp g)(n := epoch g),
                  emission := emission g @ [n]\<rparr>"
        by (simp add: step_def)
      have "unmarked ns g' \<le> unmarked ns g"
        unfolding unmarked_def g' by (rule mono) (auto split: if_splits)
      moreover have "pending g' < pending g"
        by (simp add: pending_def g' Cons f)
      ultimately show ?thesis by auto
    next
      case (Cons i rest)
      note rem = this
      let ?e = "edges g ! i"
      let ?d = "to_node ?e"
      let ?g1 = "g\<lparr>frames := (n, rest) # fs\<rparr>"
      have p1: "pending ?g1 < pending g" by (simp add: pending_def \<open>frames g = f # fs\<close> f rem)
      have u1: "unmarked ns ?g1 = unmarked ns g" by (simp add: unmarked_def)
      consider (skip) "g' = ?g1"
        | (reclass) "g' = ?g1\<lparr>edges := (edges g)[i := ?e\<lparr>kind := MemberPointer\<rparr>],
                           forward_declared := forward_declared g @ [i]\<rparr>"
        | (push) "?d \<in> set ns" "emit_stamp g ?d \<noteq> epoch g" "stack_stamp g ?d \<noteq> epoch g"
            "g' = ?g1\<lparr>frames := (?d, deps_of (edges g) ?d) # (n, rest) # fs,
                        stack_stamp := (stack_stamp g)(?d := epoch g)\<rparr>"
        using st \<open>frames g = f # fs\<close> f rem
        by (auto simp: step_def Let_def split: if_splits)
      then show ?thesis
      proof cases
        case skip
        with p1 u1 show ?thesis by auto
      next
        case reclass
        then have "unmarked ns g' = unmarked ns g" "pending g' < pending g"
          using p1 by (simp_all add: unmarked_def pending_def)
        then show ?thesis by auto
      next
        case push
        have "unmarked ns g' < unmarked ns g"
          unfolding unmarked_def push(4)
          by (rule strict[where d = ?d]) (use push(1-3) in \<open>auto split: if_splits\<close>)
        then show ?thesis by auto
      qed
    qed
  qed
qed

declare visit.simps [simp del]

text \<open>
  Modelled from the spec: one depth-first walk per root, the roots taken in the given
  order; a root already emitted in this run is passed over.
\<close>

fun visit_roots :: "nat list \<Rightarrow> nat list \<Rightarrow> dep_graph \<Rightarrow> fatal + dep_graph" where
  "visit_roots ns [] g = Inr g"
| "visit_roots ns (r # rs) g =
     (if emit_stamp g r = epoch g then visit_roots ns rs g
      else
        (case visit ns (g\<lparr>frames := [(r, deps_of (edges g) r)],
                          stack_stamp := (stack_stamp g)(r := epoch g)\<rparr>) of
           Inl f \<Rightarrow> Inl f
         | Inr g' \<Rightarrow> visit_roots ns rs g'))"

text \<open>
  Modelled from the spec: \<open>visit_all(node_set, on_visit)\<close> of section 4.1. The epoch
  counter is advanced once per top-level walk, and the node set is walked by ascending
  node index. The calls of \<open>on_visit\<close> are the \<open>emission\<close> of the result.
\<close>

definition visit_all :: "nat list \<Rightarrow> dep_graph \<Rightarrow> fatal + dep_graph" where
  "visit_all node_set g =
     visit_roots node_set (sort node_set)
       (g\<lparr>epoch := Suc (epoch g), frames := [], emission := []\<rparr>)"

text \<open>
  The ordering of a first run over a node set and its edges.
\<close>

definition walk_order :: "nat list \<Rightarrow> dep_edge list \<Rightarrow> fatal + nat list" where
  "walk_order ns es =
     (case visit_all ns (new_graph es) of Inl f \<Rightarrow> Inl f | Inr g \<Rightarrow> Inr (emission g))"

text \<open>
  The emission index of a node in an ordering: its position in the list. No marker of
  a graph lies beyond its counter: the condition under which a new run reads every
  marker of an earlier run as stale.
\<close>

definition emission_index :: "nat list \<Rightarrow> nat \<Rightarrow> nat" where
  "emission_index xs n = length (takeWhile (\<lambda>x. x \<noteq> n) xs)"

definition stamps_fresh :: "dep_graph \<Rightarrow> bool" where
  "stamps_fresh g \<longleftrightarrow> (\<forall>n. stack_stamp g n \<le> epoch g \<and> emit_stamp g n \<le> epoch g)"

text \<open>
  A list of edge indices in which every edge ends where the next one starts, and a
  cycle composed entirely of by-value member edges: such a chain of \<open>member-value\<close>
  edges without pointer storage whose last edge ends where the first one starts.
\<close>

fun chained :: "dep_edge list \<Rightarrow> nat list \<Rightarrow> bool" where
  "chained es [] = True"
| "chained es [i] = True"
| "chained es (i # j # c) = (to_node (es ! i) = from_node (es ! j) \<and> chained es (j # c))"


text \<open>
  A dependency cycle: such a chain of edges that are \<open>member-value\<close> or
  \<open>inherits\<close>, whatever their storage.
\<close>

definition gating_cycle :: "dep_edge list \<Rightarrow> nat list \<Rightarrow> bool" where
  "gating_cycle es c \<longleftrightarrow>
     c \<noteq> [] \<and> list_all (\<lambda>i. i < length es \<and> gates (es ! i)) c \<and> chained es c \<and>
     to_node (es ! last c) = from_node (es ! hd c)"


definition chain_graph :: "dep_edge list" where
  "chain_graph = [edge 0 1 Inherits False, edge 1 2 MemberValue False, edge 2 0 MemberPointer True]"


subsection \<open>Invariants of the walk\<close>

text \<open>
  The stack is well formed: a frame holds indices of edges that leave its node, and
  every gating edge of the node that the frame no longer holds leads to an emitted node
  or to the node of the frame directly above (\<open>upper\<close>).
\<close>

fun frames_ok :: "dep_edge list \<Rightarrow> nat list \<Rightarrow> nat option \<Rightarrow> (nat \<times> nat list) list \<Rightarrow> bool" where
  "frames_ok es em upper [] = True"
| "frames_ok es em upper ((n, rem) # fs) =
     ((\<forall>i \<in> set rem. i < length es \<and> from_node (es ! i) = n) \<and>
      (\<forall>i < length es. from_node (es ! i) = n \<and> gates (es ! i) \<and> i \<notin> set rem \<longrightarrow>
           to_node (es ! i) \<in> set em \<or> upper = Some (to_node (es ! i))) \<and>
      frames_ok es em (Some n) fs)"

text \<open>
  The nodes on the stack, the top first, are linked: each was reached from the one below
  it through a gating edge.
\<close>

fun linked :: "dep_edge list \<Rightarrow> nat list \<Rightarrow> bool" where
  "linked es [] = True"
| "linked es [n] = True"
| "linked es (n # m # ms) =
     ((\<exists>i < length es. from_node (es ! i) = m \<and> to_node (es ! i) = n \<and> gates (es ! i)) \<and>
      linked es (m # ms))"

text \<open>Every gating edge of an emitted node leads to a node emitted earlier.\<close>

definition ordered :: "dep_edge list \<Rightarrow> nat list \<Rightarrow> bool" where
  "ordered es em \<longleftrightarrow>
     (\<forall>i < length es. gates (es ! i) \<and> from_node (es ! i) \<in> set em \<longrightarrow>
        to_node (es ! i) \<in> set em \<and>
        emission_index em (to_node (es ! i)) < emission_index em (from_node (es ! i)))"

definition walk_inv :: "nat list \<Rightarrow> dep_graph \<Rightarrow> bool" where
  "walk_inv ns g \<longleftrightarrow>
     (\<forall>n. emit_stamp g n = epoch g \<longleftrightarrow> n \<in> set (emission g)) \<and>
     (\<forall>n. stack_stamp g n = epoch g \<longleftrightarrow> n \<in> fst ` set (frames g) \<or> n \<in> set (emission g)) \<and>
     distinct (map fst (frames g) @ emission g) \<and>
     fst ` set (frames g) \<union> set (emission g) \<subseteq> set ns \<and>
     frames_ok (edges g) (emission g) None (frames g) \<and>
     ordered (edges g) (emission g)"

text \<open>
  What a walk may change of a graph: an edge only from \<open>member-value\<close> with pointer
  storage to \<open>member-pointer\<close>, recorded in \<open>forward_declared\<close>; emissions and stack
  markers are only added.
\<close>

definition evolves :: "dep_graph \<Rightarrow> dep_graph \<Rightarrow> bool" where
  "evolves g0 g \<longleftrightarrow>
     epoch g = epoch g0 \<and>
     length (edges g) = length (edges g0) \<and>
     (\<forall>i < length (edges g0).
        edges g ! i = edges g0 ! i \<or>
        (kind (edges g0 ! i) = MemberValue \<and> pointer_storage (edges g0 ! i) \<and>
         edges g ! i = (edges g0 ! i)\<lparr>kind := MemberPointer\<rparr> \<and>
         i \<in> set (forward_declared g))) \<and>
     (\<forall>i \<in> set (forward_declared g).
        i \<in> set (forward_declared g0) \<or>
        (i < length (edges g0) \<and> kind (edges g0 ! i) = MemberValue \<and>
         pointer_storage (edges g0 ! i) \<and> kind (edges g ! i) = MemberPointer)) \<and>
     set (emission g0) \<subseteq> set (emission g) \<and>
     (\<forall>n. stack_stamp g0 n = epoch g0 \<longrightarrow> stack_stamp g n = epoch g0)"

text \<open>What a fatal error of the walk says about the graph the walk started from.\<close>

definition fatal_ok :: "nat list \<Rightarrow> dep_graph \<Rightarrow> fatal \<Rightarrow> bool" where
  "fatal_ok ns g0 f =
     (case f of
        DanglingReference n i \<Rightarrow>
          i < length (edges g0) \<and> from_node (edges g0 ! i) = n \<and>
          to_node (edges g0 ! i) \<notin> set ns
      | UnresolvableCycle n d i \<Rightarrow>
          i < length (edges g0) \<and> from_node (edges g0 ! i) = n \<and>
          to_node (edges g0 ! i) = d \<and> gates (edges g0 ! i) \<and>
          \<not> (kind (edges g0 ! i) = MemberValue \<and> pointer_storage (edges g0 ! i)))"

text \<open>The edge that an \<open>UnresolvableCycle\<close> names closes a dependency cycle.\<close>

definition cycle_ok :: "dep_graph \<Rightarrow> fatal \<Rightarrow> bool" where
  "cycle_ok g0 f =
     (case f of
        UnresolvableCycle n d i \<Rightarrow> (\<exists>c. gating_cycle (edges g0) c \<and> last c = i)
      | DanglingReference n i \<Rightarrow> True)"

section \<open>Verification: the XOR loops\<close>

lemma length_Encrypt_loop: "length (Encrypt_loop Data K i Res) = length Res"
proof (induction Data K i Res rule: Encrypt_loop.induct)
  case (1 Data K i Res)
  then show ?case by (subst Encrypt_loop.simps) simp
qed

lemma Encrypt_loop_nth:
  "j < length Res \<Longrightarrow> length Res = length Data \<Longrightarrow>
   Encrypt_loop Data K i Res ! j = (if i \<le> j then XorByte K j (Data ! j) else Res ! j)"
proof (induction Data K i Res rule: Encrypt_loop.induct)
  case (1 Data K i Res)
  show ?case
  proof (cases "i < length Data")
    case True
    have "(\<not> Suc i \<le> j \<and> i \<le> j) = (i = j)" by auto
    with True show ?thesis using 1 by (subst Encrypt_loop.simps) (auto simp: nth_list_update)
  next
    case False
    then show ?thesis using 1 by (subst Encrypt_loop.simps) auto
  qed
qed

lemma length_Decrypt_loop: "length (Decrypt_loop E K i Res) = length Res"
proof (induction E K i Res rule: Decrypt_loop.induct)
  case (1 E K i Res)
  then show ?case by (subst Decrypt_loop.simps) simp
qed

lemma Decrypt_loop_nth:
  "j < length Res \<Longrightarrow>
   Decrypt_loop E K i Res ! j =
     (if i \<le> j \<and> j < length (EncryptedData E) then XorByte K j (EncryptedData E ! j)
      else Res ! j)"
proof (induction E K i Res rule: Decrypt_loop.induct)
  case (1 E K i Res)
  show ?case
  proof (cases "i < length (EncryptedData E) \<and> i < length Res")
    case True
    have "(\<not> Suc i \<le> j \<and> i \<le> j) = (i = j)" by auto
    with True show ?thesis using 1 by (subst Decrypt_loop.simps) (auto simp: nth_list_update)
  next
    case False
    then show ?thesis using 1 by (subst Decrypt_loop.simps) auto
  qed
qed

lemma XorByte_involution: "XorByte K i (XorByte K i b) = b"
  by (simp add: XorByte_def ac_simps)

lemma length_Decrypt: "length (Decrypt E K) = unat (OriginalSize E)"
  by (simp add: Decrypt_def length_Decrypt_loop)

lemma Encrypt_fields:
  "EncryptedData (Encrypt Data K) = Encrypt_loop Data K 0 (replicate (length Data) 0)"
  "OriginalSize (Encrypt Data K) = word_of_nat (length Data)"
  "EncryptedSize (Encrypt Data K) = word_of_nat (length Data)"
  by (simp_all add: Encrypt_def Let_def EncryptedModelData_default_def length_Encrypt_loop)

lemma Decrypt_Encrypt_truncated:
  "length Data = 2 ^ 32 \<Longrightarrow> Decrypt (Encrypt Data K) K = []"
  by (simp add: Decrypt_def Encrypt_fields Decrypt_loop.simps)

lemma EncryptionKey_ok_GenerateKey: "EncryptionKey_ok GenerateKey"
  by (simp add: EncryptionKey_ok_def GenerateKey_def)

text \<open>
  C9, as stated: decrypting an encrypted vector gives the vector back, for every vector.
  A vector of \<open>2 ^ 32\<close> bytes refutes it: \<open>Encrypt\<close> stores the size in the
  \<open>uint32_t\<close> field \<open>OriginalSize\<close>, which becomes 0, and \<open>Decrypt\<close> allocates
  its result from that field.
\<close>

theorem Decrypt_Encrypt_counterexample:
  "Decrypt (Encrypt (replicate (2 ^ 32) 0) GenerateKey) GenerateKey \<noteq> replicate (2 ^ 32) 0"
proof -
  have "Decrypt (Encrypt (replicate (2 ^ 32) 0) GenerateKey) GenerateKey = []"
    by (rule Decrypt_Encrypt_truncated) simp
  moreover have "length (replicate (2 ^ 32) (0 :: uint8)) \<noteq> length ([] :: uint8 list)"
    by simp
  ultimately show ?thesis by metis
qed

text \<open>
  C9, amended: for every byte vector \<open>Data\<close> of fewer than \<open>2 ^ 32\<close> bytes and every
  key (its arrays of 32 and 16 bytes), \<open>Decrypt (Encrypt Data Key) Key\<close> is \<open>Data\<close>:
  the same length and the same byte at every index.
\<close>

theorem Decrypt_Encrypt_roundtrip:
  assumes "EncryptionKey_ok K" and "length Data < 2 ^ 32"
  shows "Decrypt (Encrypt Data K) K = Data"
proof (rule nth_equalityI)
  have u: "unat (word_of_nat (length Data) :: uint32) = length Data"
    using assms(2) by (simp add: unat_of_nat take_bit_nat_eq_self)
  show len: "length (Decrypt (Encrypt Data K) K) = length Data"
    by (simp add: length_Decrypt Encrypt_fields u)
  fix j assume "j < length (Decrypt (Encrypt Data K) K)"
  then have j: "j < length Data" using len by simp
  then show "Decrypt (Encrypt Data K) K ! j = Data ! j"
    by (simp add: Decrypt_def Decrypt_loop_nth Encrypt_fields u length_Encrypt_loop
        Encrypt_loop_nth XorByte_involution)
qed

theorem Decrypt_Encrypt_roundtrip_witness:
  "EncryptionKey_ok GenerateKey \<and> length DemoModelData < 2 ^ 32 \<and>
   Decrypt (Encrypt DemoModelData GenerateKey) GenerateKey = DemoModelData"
proof -
  have k: "EncryptionKey_ok GenerateKey" by (rule EncryptionKey_ok_GenerateKey)
  have l: "length DemoModelData < 2 ^ 32" by (simp add: DemoModelData_def)
  show ?thesis using k l Decrypt_Encrypt_roundtrip [OF k l] by simp
qed

section \<open>Verification: loading a model\<close>

lemma Decrypt_nonempty: "VerifyModel Model \<Longrightarrow> Decrypt Model K \<noteq> []"
proof -
  assume "VerifyModel Model"
  then have "0 < unat (OriginalSize Model)"
    by (simp add: VerifyModel_def word_less_nat_alt)
  then show ?thesis using length_Decrypt[of Model K] by auto
qed

lemma LoadModel_fst: "fst (LoadModel R Model K) = VerifyModel Model"
  by (simp add: LoadModel_def Let_def length_Decrypt Decrypt_nonempty)

lemma LoadModel_IsLoaded:
  "IsLoaded (snd (LoadModel R Model K)) = (IsLoaded R \<or> VerifyModel Model)"
  by (simp add: LoadModel_def Let_def length_Decrypt Decrypt_nonempty IsLoaded_def)

lemma VerifyModel_Demo: "VerifyModel DemoEncryptedModel"
  by (simp add: VerifyModel_def DemoEncryptedModel_def Encrypt_fields length_Encrypt_loop
      DemoModelData_def)

lemma not_VerifyModel_default: "\<not> VerifyModel EncryptedModelData_default"
  by (simp add: VerifyModel_def EncryptedModelData_default_def)

text \<open>
  C10, as stated: after \<open>LoadModel\<close>, \<open>IsLoaded()\<close> is true exactly when the call
  returned true. On a runtime that already holds the demo model, loading a
  default-constructed (invalid) model returns false and leaves \<open>IsLoaded()\<close> true.
\<close>

theorem LoadModel_IsLoaded_counterexample:
  "\<not> fst (LoadModel DemoLoadedRuntime EncryptedModelData_default GenerateKey) \<and>
   IsLoaded (snd (LoadModel DemoLoadedRuntime EncryptedModelData_default GenerateKey))"
  by (simp add: LoadModel_fst LoadModel_IsLoaded not_VerifyModel_default
      DemoLoadedRuntime_def VerifyModel_Demo)

text \<open>
  C10, amended: \<open>LoadModel(Model, Key)\<close> returns true if and only if
  \<open>Security::VerifyModel(Model)\<close> does; when it does, the decrypted data is not empty and
  has \<open>OriginalSize\<close> bytes, so the failure branch after decryption is not reached;
  afterwards \<open>IsLoaded()\<close> is true exactly when the call returned true or the runtime
  was loaded before the call, and on a newly constructed runtime exactly when the call
  returned true.
\<close>

theorem LoadModel_result:
  "fst (LoadModel R Model K) = VerifyModel Model \<and>
   (VerifyModel Model \<longrightarrow>
      Decrypt Model K \<noteq> [] \<and> length (Decrypt Model K) = unat (OriginalSize Model)) \<and>
   IsLoaded (snd (LoadModel R Model K)) = (IsLoaded R \<or> fst (LoadModel R Model K)) \<and>
   IsLoaded (snd (LoadModel EncryptedModelRuntime_new Model K)) =
     fst (LoadModel EncryptedModelRuntime_new Model K)"
proof -
  have "\<not> IsLoaded EncryptedModelRuntime_new"
    by (simp add: IsLoaded_def EncryptedModelRuntime_new_def)
  then show ?thesis
    by (simp add: LoadModel_fst LoadModel_IsLoaded Decrypt_nonempty length_Decrypt)
qed

theorem LoadModel_result_witness:
  "VerifyModel DemoEncryptedModel \<and>
   fst (LoadModel EncryptedModelRuntime_new DemoEncryptedModel GenerateKey) \<and>
   Decrypt DemoEncryptedModel GenerateKey \<noteq> [] \<and>
   IsLoaded (snd (LoadModel EncryptedModelRuntime_new DemoEncryptedModel GenerateKey))"
  using LoadModel_result[of EncryptedModelRuntime_new DemoEncryptedModel GenerateKey]
    VerifyModel_Demo by simp

section \<open>Verification: the member comparators\<close>

lemma CompareUnrealProperties_irrefl: "\<not> CompareUnrealProperties a a"
  by (simp add: CompareUnrealProperties_def)

lemma CompareUnrealProperties_trans:
  "CompareUnrealProperties a b \<Longrightarrow> CompareUnrealProperties b c \<Longrightarrow>
   CompareUnrealProperties a c"
  by (auto simp: CompareUnrealProperties_def word_sless_alt split: if_splits)

text \<open>
  C8: \<open>CompareUnrealProperties\<close> is irreflexive and transitive (the two lemmas above),
  but it is no strict weak ordering. At offset 0, the bit field with bit index 1 and the
  property that is no \<open>BoolProperty\<close> are not ordered, nor are that property and the bit
  field with bit index 0, yet the second bit field compares less than the first.
\<close>

theorem CompareUnrealProperties_not_strict_weak:
  "incomparable CompareUnrealProperties BoolBit1 IntAt0 \<and>
   incomparable CompareUnrealProperties IntAt0 BoolBit0 \<and>
   CompareUnrealProperties BoolBit0 BoolBit1 \<and>
   \<not> incomparable CompareUnrealProperties BoolBit1 BoolBit0 \<and>
   \<not> strict_weak_ordering CompareUnrealProperties"
proof -
  have 1: "incomparable CompareUnrealProperties BoolBit1 IntAt0"
    by (simp add: incomparable_def CompareUnrealProperties_def BoolBit1_def IntAt0_def)
  have 2: "incomparable CompareUnrealProperties IntAt0 BoolBit0"
    by (simp add: incomparable_def CompareUnrealProperties_def BoolBit0_def IntAt0_def)
  have 3: "CompareUnrealProperties BoolBit0 BoolBit1"
    by (simp add: CompareUnrealProperties_def BoolBit0_def BoolBit1_def)
  then have 4: "\<not> incomparable CompareUnrealProperties BoolBit1 BoolBit0"
    by (simp add: incomparable_def)
  from 1 2 4 have "\<not> strict_weak_ordering CompareUnrealProperties"
    unfolding strict_weak_ordering_def by blast
  with 1 2 3 4 show ?thesis by simp
qed

theorem CompareUnrealProperties_not_strict_weak_witness:
  "\<not> CompareUnrealProperties BoolBit1 IntAt0 \<and> \<not> CompareUnrealProperties IntAt0 BoolBit1 \<and>
   \<not> CompareUnrealProperties IntAt0 BoolBit0 \<and> \<not> CompareUnrealProperties BoolBit0 IntAt0 \<and>
   CompareUnrealProperties BoolBit0 BoolBit1"
  using CompareUnrealProperties_not_strict_weak by (simp add: incomparable_def)

text \<open>
  C7, as stated: bit-field members that share an offset are ordered by ascending bit
  index by the member comparators. \<open>ComparePredefinedMembers\<close> does not look at
  \<open>bIsBitField\<close> or \<open>BitIndex\<close>: two non-static bit fields at offset 0 with bit
  indices 0 and 1 are not ordered by it.
\<close>

theorem ComparePredefinedMembers_bitfield_counterexample:
  "\<not> bIsStatic (BitMember ''A'' 0) \<and> \<not> bIsStatic (BitMember ''B'' 1) \<and>
   bIsBitField (BitMember ''A'' 0) \<and> bIsBitField (BitMember ''B'' 1) \<and>
   Offset (BitMember ''A'' 0) = Offset (BitMember ''B'' 1) \<and>
   BitIndex (BitMember ''A'' 0) < BitIndex (BitMember ''B'' 1) \<and>
   \<not> ComparePredefinedMembers (BitMember ''A'' 0) (BitMember ''B'' 1)"
  by (simp add: BitMember_def ComparePredefinedMembers_def)

text \<open>
  \<open>ComparePredefinedMembers\<close> is a strict weak ordering, as its comment says: static
  members by name, then the non-static members by offset.
\<close>

lemma ComparePredefinedMembers_irrefl: "\<not> ComparePredefinedMembers a a"
  by (simp add: ComparePredefinedMembers_def)

lemma ComparePredefinedMembers_trans:
  assumes "ComparePredefinedMembers a b" and "ComparePredefinedMembers b c"
  shows "ComparePredefinedMembers a c"
proof (cases "bIsStatic a")
  case True
  note a = this
  show ?thesis
  proof (cases "bIsStatic b")
    case True
    note b = this
    show ?thesis
    proof (cases "bIsStatic c")
      case True
      with a b assms have "Name a < Name b" "Name b < Name c"
        by (simp_all add: ComparePredefinedMembers_def)
      then have "Name a < Name c" by (rule less_trans)
      with a True show ?thesis by (simp add: ComparePredefinedMembers_def)
    next
      case False
      with a show ?thesis by (simp add: ComparePredefinedMembers_def)
    qed
  next
    case False
    note b = this
    show ?thesis
    proof (cases "bIsStatic c")
      case True
      with b assms(2) show ?thesis by (simp add: ComparePredefinedMembers_def)
    next
      case False
      with a show ?thesis by (simp add: ComparePredefinedMembers_def)
    qed
  qed
next
  case False
  note a = this
  show ?thesis
  proof (cases "bIsStatic b")
    case True
    with a assms(1) show ?thesis by (simp add: ComparePredefinedMembers_def)
  next
    case False
    note b = this
    show ?thesis
    proof (cases "bIsStatic c")
      case True
      with b assms(2) show ?thesis by (simp add: ComparePredefinedMembers_def)
    next
      case False
      with a b assms have "sint (Offset a) < sint (Offset b)" "sint (Offset b) < sint (Offset c)"
        by (simp_all add: ComparePredefinedMembers_def word_sless_alt)
      then have "sint (Offset a) < sint (Offset c)" by (rule less_trans)
      with a False show ?thesis by (simp add: ComparePredefinedMembers_def word_sless_alt)
    qed
  qed
qed

lemma incomparable_ComparePredefinedMembers:
  "incomparable ComparePredefinedMembers a b \<longleftrightarrow>
     bIsStatic a = bIsStatic b \<and>
     (if bIsStatic a then Name a = Name b else Offset a = Offset b)"
proof (cases "bIsStatic a"; cases "bIsStatic b")
  assume s: "bIsStatic a" "bIsStatic b"
  have "(\<not> Name a < Name b \<and> \<not> Name b < Name a) = (Name a = Name b)"
    using linorder_neq_iff[of "Name a" "Name b"] by blast
  with s show ?thesis
    by (simp add: incomparable_def ComparePredefinedMembers_def)
next
  assume s: "\<not> bIsStatic a" "\<not> bIsStatic b"
  have "(\<not> Offset a <s Offset b \<and> \<not> Offset b <s Offset a) = (Offset a = Offset b)"
    using signed.neq_iff[of "Offset a" "Offset b"] by blast
  with s show ?thesis
    by (simp add: incomparable_def ComparePredefinedMembers_def)
qed (simp_all add: incomparable_def ComparePredefinedMembers_def)

lemma strict_weak_ordering_ComparePredefinedMembers:
  "strict_weak_ordering ComparePredefinedMembers"
  unfolding strict_weak_ordering_def
proof (intro conjI allI impI)
  fix a show "\<not> ComparePredefinedMembers a a" by (rule ComparePredefinedMembers_irrefl)
next
  fix a b c assume "ComparePredefinedMembers a b \<and> ComparePredefinedMembers b c"
  then show "ComparePredefinedMembers a c" by (blast intro: ComparePredefinedMembers_trans)
next
  fix a b c
  assume "incomparable ComparePredefinedMembers a b \<and> incomparable ComparePredefinedMembers b c"
  then show "incomparable ComparePredefinedMembers a c"
    by (simp add: incomparable_ComparePredefinedMembers split: if_splits)
qed

lemma strict_weak_ordering_not_less_trans:
  assumes "strict_weak_ordering cmp" and "\<not> cmp b a" and "\<not> cmp c b"
  shows "\<not> cmp c a"
proof
  assume ca: "cmp c a"
  from assms(1) have tr: "\<And>x y z. cmp x y \<Longrightarrow> cmp y z \<Longrightarrow> cmp x z"
    and inc: "\<And>x y z. incomparable cmp x y \<Longrightarrow> incomparable cmp y z \<Longrightarrow> incomparable cmp x z"
    unfolding strict_weak_ordering_def by blast+
  from tr[of b c a] ca assms(2) have "\<not> cmp b c" by blast
  with assms(3) have bc: "incomparable cmp b c" by (simp add: incomparable_def)
  from tr[of c a b] ca assms(3) have "\<not> cmp a b" by blast
  with assms(2) have ab: "incomparable cmp a b" by (simp add: incomparable_def)
  from inc[OF ab bc] ca show False by (simp add: incomparable_def)
qed

lemma is_sorted_sorted_wrt:
  assumes "is_sorted cmp xs" and "\<And>a b. \<not> cmp b a \<Longrightarrow> R a b"
    and "\<And>a b c. R a b \<Longrightarrow> R b c \<Longrightarrow> R a c"
  shows "sorted_wrt R xs"
  using assms(1)
proof (induction xs rule: induct_list012)
  case (3 x y xs)
  from 3 have "\<not> cmp y x" and s: "sorted_wrt R (y # xs)" by simp_all
  from assms(2)[OF this(1)] have xy: "R x y" .
  from s have "\<forall>z \<in> set xs. R y z" by simp
  with xy assms(3) have "\<forall>z \<in> set (y # xs). R x z" by auto
  with s show ?case by simp
qed simp_all

lemma is_sorted_nth:
  assumes "strict_weak_ordering cmp" and "is_sorted cmp xs" and "i < j" and "j < length xs"
  shows "\<not> cmp (xs ! j) (xs ! i)"
proof -
  have "sorted_wrt (\<lambda>a b. \<not> cmp b a) xs"
    by (rule is_sorted_sorted_wrt[OF assms(2)])
       (simp, rule strict_weak_ordering_not_less_trans[OF assms(1)])
  with assms(3,4) show ?thesis by (simp add: sorted_wrt_iff_nth_less)
qed

lemma is_sorted_offsets:
  assumes "is_sorted CompareUnrealProperties ps" and "i < j" and "j < length ps"
  shows "sint (GetOffset (ps ! i)) \<le> sint (GetOffset (ps ! j))"
proof -
  have "sorted_wrt (\<lambda>a b. sint (GetOffset a) \<le> sint (GetOffset b)) ps"
  proof (rule is_sorted_sorted_wrt[OF assms(1)])
    fix a b assume "\<not> CompareUnrealProperties b a"
    then show "sint (GetOffset a) \<le> sint (GetOffset b)"
      by (simp add: CompareUnrealProperties_def word_sless_alt not_less split: if_splits)
  qed simp
  with assms(2,3) show ?thesis by (simp add: sorted_wrt_iff_nth_less)
qed

text \<open>
  Under \<open>CompareUnrealProperties\<close> the offsets of a list whose neighbours are in order
  do not decrease. Its bit indices may: in the list below no property compares less
  than its predecessor, and the bit field with bit index 1 stands before the one with
  bit index 0 at the same offset.
\<close>

lemma is_sorted_bit_indices_unordered:
  "is_sorted CompareUnrealProperties [IntAt0, BoolBit1, IntAt0, BoolBit0] \<and>
   CompareUnrealProperties BoolBit0 BoolBit1"
  by (simp add: CompareUnrealProperties_def BoolBit0_def BoolBit1_def IntAt0_def)

lemma is_sorted_DemoMembers: "is_sorted ComparePredefinedMembers DemoMembers"
  by (simp add: DemoMembers_def ComparePredefinedMembers_def StaticMember_def BitMember_def)

lemma is_sorted_DemoProperties: "is_sorted CompareUnrealProperties DemoProperties"
  by (simp add: DemoProperties_def CompareUnrealProperties_def BoolBit0_def BoolBit1_def
      IntAt4_def word_sless_alt)

text \<open>
  C7, amended: for every pair of members, \<open>ComparePredefinedMembers\<close> orders two static
  members by name (lexically), puts a static member before a non-static one, and orders
  two non-static members by ascending offset alone, whatever their bit indices;
  \<open>CompareUnrealProperties\<close> never puts a property before one at a smaller offset,
  orders properties at different offsets by ascending offset, and orders two
  \<open>BoolProperty\<close> bit fields at the same offset by ascending bit index. So in a member
  list in which no member compares less than its predecessor under
  \<open>ComparePredefinedMembers\<close> the static members come first as a group, by
  non-decreasing name, and the non-static members follow by non-decreasing offset; in a
  property list in which no property compares less than its predecessor under
  \<open>CompareUnrealProperties\<close> the offsets do not decrease.
\<close>

theorem member_comparators_order:
  "(bIsStatic L \<and> bIsStatic R \<longrightarrow> ComparePredefinedMembers L R = (Name L < Name R)) \<and>
   (bIsStatic L \<and> \<not> bIsStatic R \<longrightarrow>
      ComparePredefinedMembers L R \<and> \<not> ComparePredefinedMembers R L) \<and>
   (\<not> bIsStatic L \<and> \<not> bIsStatic R \<longrightarrow>
      ComparePredefinedMembers L R = (sint (Offset L) < sint (Offset R))) \<and>
   (CompareUnrealProperties P Q \<longrightarrow> sint (GetOffset P) \<le> sint (GetOffset Q)) \<and>
   (GetOffset P \<noteq> GetOffset Q \<longrightarrow>
      CompareUnrealProperties P Q = (sint (GetOffset P) < sint (GetOffset Q))) \<and>
   (IsBoolProperty P \<and> IsBoolProperty Q \<and> GetOffset P = GetOffset Q \<longrightarrow>
      CompareUnrealProperties P Q = (unat (GetBitIndex P) < unat (GetBitIndex Q))) \<and>
   (is_sorted ComparePredefinedMembers xs \<and> i < j \<and> j < length xs \<longrightarrow>
      (bIsStatic (xs ! j) \<longrightarrow> bIsStatic (xs ! i)) \<and>
      (bIsStatic (xs ! i) \<and> bIsStatic (xs ! j) \<longrightarrow> Name (xs ! i) \<le> Name (xs ! j)) \<and>
      (\<not> bIsStatic (xs ! i) \<and> \<not> bIsStatic (xs ! j) \<longrightarrow>
         sint (Offset (xs ! i)) \<le> sint (Offset (xs ! j)))) \<and>
   (is_sorted CompareUnrealProperties ps \<and> i < j \<and> j < length ps \<longrightarrow>
      sint (GetOffset (ps ! i)) \<le> sint (GetOffset (ps ! j)))"
proof -
  have pair: "(bIsStatic L \<and> bIsStatic R \<longrightarrow> ComparePredefinedMembers L R = (Name L < Name R)) \<and>
   (bIsStatic L \<and> \<not> bIsStatic R \<longrightarrow>
      ComparePredefinedMembers L R \<and> \<not> ComparePredefinedMembers R L) \<and>
   (\<not> bIsStatic L \<and> \<not> bIsStatic R \<longrightarrow>
      ComparePredefinedMembers L R = (sint (Offset L) < sint (Offset R))) \<and>
   (CompareUnrealProperties P Q \<longrightarrow> sint (GetOffset P) \<le> sint (GetOffset Q)) \<and>
   (GetOffset P \<noteq> GetOffset Q \<longrightarrow>
      CompareUnrealProperties P Q = (sint (GetOffset P) < sint (GetOffset Q))) \<and>
   (IsBoolProperty P \<and> IsBoolProperty Q \<and> GetOffset P = GetOffset Q \<longrightarrow>
      CompareUnrealProperties P Q = (unat (GetBitIndex P) < unat (GetBitIndex Q)))"
    by (auto simp: ComparePredefinedMembers_def CompareUnrealProperties_def word_sless_alt
      word_less_nat_alt)
  have members: "(bIsStatic (xs ! j) \<longrightarrow> bIsStatic (xs ! i)) \<and>
      (bIsStatic (xs ! i) \<and> bIsStatic (xs ! j) \<longrightarrow> Name (xs ! i) \<le> Name (xs ! j)) \<and>
      (\<not> bIsStatic (xs ! i) \<and> \<not> bIsStatic (xs ! j) \<longrightarrow>
         sint (Offset (xs ! i)) \<le> sint (Offset (xs ! j)))"
    if "is_sorted ComparePredefinedMembers xs" "i < j" "j < length xs"
  proof -
    from is_sorted_nth[OF strict_weak_ordering_ComparePredefinedMembers that]
    have "\<not> ComparePredefinedMembers (xs ! j) (xs ! i)" .
    then show ?thesis
      by (auto simp: ComparePredefinedMembers_def word_sless_alt not_less split: if_splits)
  qed
  from pair members is_sorted_offsets[of ps i j] show ?thesis by blast
qed

theorem member_comparators_order_witness:
  "ComparePredefinedMembers (StaticMember ''A'') (StaticMember ''B'') \<and>
   bIsStatic (StaticMember ''B'') \<and> \<not> bIsStatic (BitMember ''A'' 0) \<and>
   ComparePredefinedMembers (StaticMember ''B'') (BitMember ''A'' 0) \<and>
   \<not> ComparePredefinedMembers (BitMember ''A'' 0) (StaticMember ''B'') \<and>
   \<not> ComparePredefinedMembers (BitMember ''A'' 0) (BitMember ''B'' 1) \<and>
   CompareUnrealProperties IntAt0 IntAt4 \<and>
   IsBoolProperty BoolBit0 \<and> IsBoolProperty BoolBit1 \<and>
   GetOffset BoolBit0 = GetOffset BoolBit1 \<and>
   CompareUnrealProperties BoolBit0 BoolBit1 \<and>
   is_sorted ComparePredefinedMembers DemoMembers \<and>
   bIsStatic (DemoMembers ! 0) \<and> bIsStatic (DemoMembers ! 1) \<and>
   Name (DemoMembers ! 0) \<le> Name (DemoMembers ! 1) \<and>
   \<not> bIsStatic (DemoMembers ! 2) \<and> \<not> bIsStatic (DemoMembers ! 3) \<and>
   sint (Offset (DemoMembers ! 2)) \<le> sint (Offset (DemoMembers ! 3)) \<and>
   is_sorted CompareUnrealProperties DemoProperties \<and>
   sint (GetOffset (DemoProperties ! 0)) \<le> sint (GetOffset (DemoProperties ! 2))"
proof -
  note T = member_comparators_order
  have a: "0 < (1::nat) \<and> (1::nat) < length DemoMembers"
    "2 < (3::nat) \<and> (3::nat) < length DemoMembers"
    "0 < (2::nat) \<and> (2::nat) < length DemoProperties"
    by (simp_all add: DemoMembers_def DemoProperties_def)
  have s: "bIsStatic (DemoMembers ! 0)" "bIsStatic (DemoMembers ! 1)"
    "\<not> bIsStatic (DemoMembers ! 2)" "\<not> bIsStatic (DemoMembers ! 3)"
    by (simp_all add: DemoMembers_def StaticMember_def BitMember_def)
  have p: "ComparePredefinedMembers (StaticMember ''A'') (StaticMember ''B'') \<and>
   bIsStatic (StaticMember ''B'') \<and> \<not> bIsStatic (BitMember ''A'' 0) \<and>
   ComparePredefinedMembers (StaticMember ''B'') (BitMember ''A'' 0) \<and>
   \<not> ComparePredefinedMembers (BitMember ''A'' 0) (StaticMember ''B'') \<and>
   \<not> ComparePredefinedMembers (BitMember ''A'' 0) (BitMember ''B'' 1) \<and>
   CompareUnrealProperties IntAt0 IntAt4 \<and>
   IsBoolProperty BoolBit0 \<and> IsBoolProperty BoolBit1 \<and>
   GetOffset BoolBit0 = GetOffset BoolBit1 \<and>
   CompareUnrealProperties BoolBit0 BoolBit1"
    using T [of "StaticMember ''A''" "StaticMember ''B''" IntAt0 IntAt4]
      T [of "StaticMember ''B''" "BitMember ''A'' 0" BoolBit0 BoolBit1]
      T [of "BitMember ''A'' 0" "BitMember ''B'' 1" BoolBit0 BoolBit1]
    by (simp add: StaticMember_def BitMember_def IntAt0_def IntAt4_def BoolBit0_def BoolBit1_def)
  from T[where xs = DemoMembers and i = 0 and j = 1] is_sorted_DemoMembers a s
  have q1: "Name (DemoMembers ! 0) \<le> Name (DemoMembers ! 1)"
    by blast
  from T[where xs = DemoMembers and i = 2 and j = 3] is_sorted_DemoMembers a s
  have q2: "sint (Offset (DemoMembers ! 2)) \<le> sint (Offset (DemoMembers ! 3))"
    by blast
  from T[where ps = DemoProperties and i = 0 and j = 2] is_sorted_DemoProperties a
  have q3: "sint (GetOffset (DemoProperties ! 0)) \<le> sint (GetOffset (DemoProperties ! 2))"
    by blast
  from p q1 q2 q3 is_sorted_DemoMembers is_sorted_DemoProperties s show ?thesis by blast
qed

section \<open>Verification: the dependency graph walk\<close>

lemma set_deps_of: "set (deps_of es n) = {i. i < length es \<and> from_node (es ! i) = n}"
  by (auto simp: deps_of_def)

lemma emission_index_append_in:
  "n \<in> set xs \<Longrightarrow> emission_index (xs @ ys) n = emission_index xs n"
  unfolding emission_index_def by (induction xs) auto

lemma emission_index_less: "n \<in> set xs \<Longrightarrow> emission_index xs n < length xs"
  unfolding emission_index_def by (induction xs) auto

lemma emission_index_append_new:
  "n \<notin> set xs \<Longrightarrow> emission_index (xs @ [n]) n = length xs"
  unfolding emission_index_def by (induction xs) auto

lemma step_NextE:
  assumes "step ns g = Next g'"
  obtains
    (pop) n fs where "frames g = (n, []) # fs"
      "g' = g\<lparr>frames := fs, emit_stamp := (emit_stamp g)(n := epoch g),
                emission := emission g @ [n]\<rparr>"
  | (skip) n i rest fs where "frames g = (n, i # rest) # fs"
      "to_node (edges g ! i) \<in> set ns"
      "kind (edges g ! i) = MemberPointer \<or> emit_stamp g (to_node (edges g ! i)) = epoch g"
      "g' = g\<lparr>frames := (n, rest) # fs\<rparr>"
  | (reclass) n i rest fs where "frames g = (n, i # rest) # fs"
      "to_node (edges g ! i) \<in> set ns"
      "kind (edges g ! i) = MemberValue" "pointer_storage (edges g ! i)"
      "emit_stamp g (to_node (edges g ! i)) \<noteq> epoch g"
      "stack_stamp g (to_node (edges g ! i)) = epoch g"
      "g' = g\<lparr>frames := (n, rest) # fs,
                edges := (edges g)[i := (edges g ! i)\<lparr>kind := MemberPointer\<rparr>],
                forward_declared := forward_declared g @ [i]\<rparr>"
  | (push) n i rest fs where "frames g = (n, i # rest) # fs"
      "to_node (edges g ! i) \<in> set ns"
      "kind (edges g ! i) \<noteq> MemberPointer"
      "emit_stamp g (to_node (edges g ! i)) \<noteq> epoch g"
      "stack_stamp g (to_node (edges g ! i)) \<noteq> epoch g"
      "g' = g\<lparr>frames := (to_node (edges g ! i), deps_of (edges g) (to_node (edges g ! i)))
                          # (n, rest) # fs,
                stack_stamp := (stack_stamp g)(to_node (edges g ! i) := epoch g)\<rparr>"
proof (cases "frames g")
  case Nil
  with assms show ?thesis by (simp add: step_def)
next
  case (Cons f fs)
  obtain n rem where f: "f = (n, rem)" by (cases f)
  show ?thesis
  proof (cases rem)
    case Nil
    with assms Cons f show ?thesis by (intro pop[of n fs]) (auto simp: step_def)
  next
    case (Cons i rest)
    with assms \<open>frames g = f # fs\<close> f show ?thesis
      using skip[of n i rest fs] reclass[of n i rest fs] push[of n i rest fs]
      by (auto simp: step_def Let_def split: if_splits)
  qed
qed

lemma step_FatalE:
  assumes "step ns g = Fatal f"
  obtains
    (dangling) n i rest fs where "frames g = (n, i # rest) # fs"
      "to_node (edges g ! i) \<notin> set ns" "f = DanglingReference n i"
  | (cycle) n i rest fs where "frames g = (n, i # rest) # fs"
      "to_node (edges g ! i) \<in> set ns"
      "gates (edges g ! i)" "\<not> (kind (edges g ! i) = MemberValue \<and> pointer_storage (edges g ! i))"
      "stack_stamp g (to_node (edges g ! i)) = epoch g"
      "emit_stamp g (to_node (edges g ! i)) \<noteq> epoch g"
      "f = UnresolvableCycle n (to_node (edges g ! i)) i"
proof (cases "frames g")
  case Nil
  with assms show ?thesis by (simp add: step_def)
next
  case (Cons fr fs)
  obtain n rem where fr: "fr = (n, rem)" by (cases fr)
  show ?thesis
  proof (cases rem)
    case Nil
    with assms Cons fr show ?thesis by (auto simp: step_def)
  next
    case (Cons i rest)
    have "gates e \<longleftrightarrow> kind e \<noteq> MemberPointer" for e
      by (cases "kind e") (auto simp: gates_def)
    with Cons assms \<open>frames g = fr # fs\<close> fr show ?thesis
      using dangling[of n i rest fs] cycle[of n i rest fs]
      by (auto simp: step_def Let_def split: if_splits)
  qed
qed

lemma frames_ok_weaken:
  assumes "frames_ok es em up fs" and "set em \<subseteq> set em'"
    and "\<And>x. up = Some x \<Longrightarrow> x \<in> set em' \<or> up' = Some x"
  shows "frames_ok es em' up' fs"
  using assms
proof (induction fs arbitrary: up up')
  case Nil
  then show ?case by simp
next
  case (Cons f fs)
  obtain n rem where f: "f = (n, rem)" by (cases f)
  from Cons.prems(1) have tl: "frames_ok es em (Some n) fs" by (simp add: f)
  have "frames_ok es em' (Some n) fs"
    by (rule Cons.IH[OF tl Cons.prems(2)]) simp
  moreover from Cons.prems have
    "\<forall>i < length es. from_node (es ! i) = n \<and> gates (es ! i) \<and> i \<notin> set rem \<longrightarrow>
           to_node (es ! i) \<in> set em' \<or> up' = Some (to_node (es ! i))"
    by (auto simp: f)
  ultimately show ?case using Cons.prems(1) by (simp add: f)
qed

lemma reclass_nth:
  assumes "j < length es"
  shows "from_node (es[i := (es ! i)\<lparr>kind := MemberPointer\<rparr>] ! j) = from_node (es ! j)"
    and "to_node (es[i := (es ! i)\<lparr>kind := MemberPointer\<rparr>] ! j) = to_node (es ! j)"
    and "gates (es[i := (es ! i)\<lparr>kind := MemberPointer\<rparr>] ! j) \<Longrightarrow> gates (es ! j)"
    and "pointer_storage (es[i := (es ! i)\<lparr>kind := MemberPointer\<rparr>] ! j) = pointer_storage (es ! j)"
  using assms by (cases "j = i"; simp add: gates_def)+

lemma frames_ok_reclass:
  assumes "frames_ok es em up fs"
  shows "frames_ok (es[i := (es ! i)\<lparr>kind := MemberPointer\<rparr>]) em up fs"
  using assms
proof (induction fs arbitrary: up)
  case Nil
  then show ?case by simp
next
  case (Cons f fs)
  obtain n rem where f: "f = (n, rem)" by (cases f)
  note nth = reclass_nth[of _ es i]
  from Cons.prems have "frames_ok es em (Some n) fs" by (simp add: f)
  then have "frames_ok (es[i := (es ! i)\<lparr>kind := MemberPointer\<rparr>]) em (Some n) fs"
    by (rule Cons.IH)
  then show ?case using Cons.prems nth by (auto simp: f)
qed

lemma ordered_reclass:
  assumes "ordered es em"
  shows "ordered (es[i := (es ! i)\<lparr>kind := MemberPointer\<rparr>]) em"
proof -
  note nth = reclass_nth[of _ es i]
  with assms show ?thesis unfolding ordered_def by auto
qed

lemma ordered_append:
  assumes "ordered es em" and "n \<notin> set em"
    and "\<And>i. i < length es \<Longrightarrow> gates (es ! i) \<Longrightarrow> from_node (es ! i) = n \<Longrightarrow>
           to_node (es ! i) \<in> set em"
  shows "ordered es (em @ [n])"
  unfolding ordered_def
proof (intro allI impI)
  fix i assume i: "i < length es"
    and h: "gates (es ! i) \<and> from_node (es ! i) \<in> set (em @ [n])"
  show "to_node (es ! i) \<in> set (em @ [n]) \<and>
        emission_index (em @ [n]) (to_node (es ! i)) < emission_index (em @ [n]) (from_node (es ! i))"
  proof (cases "from_node (es ! i) = n")
    case True
    with assms(3)[OF i] h have t: "to_node (es ! i) \<in> set em" by simp
    with True assms(2) show ?thesis
      by (simp add: emission_index_append_in emission_index_append_new emission_index_less)
  next
    case False
    with h have f: "from_node (es ! i) \<in> set em" by simp
    with assms(1) i h have "to_node (es ! i) \<in> set em"
      "emission_index em (to_node (es ! i)) < emission_index em (from_node (es ! i))"
      unfolding ordered_def by blast+
    with f show ?thesis by (simp add: emission_index_append_in)
  qed
qed

lemma frames_ok_advance:
  assumes "frames_ok es em up ((n, i # rest) # fs)"
    and "\<not> gates (es ! i) \<or> to_node (es ! i) \<in> set em \<or> up = Some (to_node (es ! i))"
  shows "frames_ok es em up ((n, rest) # fs)"
proof -
  have "to_node (es ! j) \<in> set em \<or> up = Some (to_node (es ! j))"
    if "j < length es" "from_node (es ! j) = n" "gates (es ! j)" "j \<notin> set rest" for j
  proof (cases "j = i")
    case True
    with assms(2) that show ?thesis by simp
  next
    case False
    with assms(1) that show ?thesis by simp
  qed
  with assms(1) show ?thesis by simp
qed

lemma frames_ok_index:
  "frames_ok es em up ((n, rem) # fs) \<Longrightarrow> i \<in> set rem \<Longrightarrow>
   i < length es \<and> from_node (es ! i) = n"
  by simp

lemma frames_ok_done:
  "frames_ok es em None ((n, []) # fs) \<Longrightarrow> i < length es \<Longrightarrow> gates (es ! i) \<Longrightarrow>
   from_node (es ! i) = n \<Longrightarrow> to_node (es ! i) \<in> set em"
  by simp

lemma frames_ok_tail: "frames_ok es em up ((n, rem) # fs) \<Longrightarrow> frames_ok es em (Some n) fs"
  by simp

lemma frames_ok_push:
  assumes "frames_ok es em None ((n, i # rest) # fs)" and "to_node (es ! i) = d"
  shows "frames_ok es em None ((d, deps_of es d) # (n, rest) # fs)"
proof -
  have "frames_ok es em (Some d) ((n, i # rest) # fs)"
    by (rule frames_ok_weaken[OF assms(1)]) simp_all
  then have "frames_ok es em (Some d) ((n, rest) # fs)"
    by (rule frames_ok_advance) (simp add: assms(2))
  then show ?thesis by (auto simp: set_deps_of)
qed

declare frames_ok.simps [simp del]

lemma walk_invI:
  assumes "\<And>m. emit_stamp g m = epoch g \<longleftrightarrow> m \<in> set (emission g)"
    and "\<And>m. stack_stamp g m = epoch g \<longleftrightarrow> m \<in> fst ` set (frames g) \<or> m \<in> set (emission g)"
    and "distinct (map fst (frames g) @ emission g)"
    and "fst ` set (frames g) \<union> set (emission g) \<subseteq> set ns"
    and "frames_ok (edges g) (emission g) None (frames g)"
    and "ordered (edges g) (emission g)"
  shows "walk_inv ns g"
  unfolding walk_inv_def using assms by blast

lemma walk_invD:
  assumes "walk_inv ns g"
  shows "\<And>m. emit_stamp g m = epoch g \<longleftrightarrow> m \<in> set (emission g)"
    and "\<And>m. stack_stamp g m = epoch g \<longleftrightarrow> m \<in> fst ` set (frames g) \<or> m \<in> set (emission g)"
    and "distinct (map fst (frames g) @ emission g)"
    and "fst ` set (frames g) \<union> set (emission g) \<subseteq> set ns"
    and "frames_ok (edges g) (emission g) None (frames g)"
    and "ordered (edges g) (emission g)"
  using assms unfolding walk_inv_def by blast+

lemma walk_inv_step:
  assumes inv: "walk_inv ns g" and st: "step ns g = Next g'"
  shows "walk_inv ns g'"
  using st
proof (cases rule: step_NextE)
  case (pop n fs)
  note D = walk_invD[OF inv]
  from D(5) have fo: "frames_ok (edges g) (emission g) None ((n, []) # fs)"
    by (simp add: pop(1))
  from D(3) have nn: "n \<notin> set (emission g)" and nf: "n \<notin> fst ` set fs"
    and dis: "distinct (map fst fs @ emission g)"
    by (auto simp: pop(1))
  have fo': "frames_ok (edges g) (emission g @ [n]) None fs"
    by (rule frames_ok_weaken[OF frames_ok_tail[OF fo]]) auto
  have ord': "ordered (edges g) (emission g @ [n])"
    by (rule ordered_append[OF D(6) nn frames_ok_done[OF fo]])
  show ?thesis
  proof (rule walk_invI)
    fix m
    show "emit_stamp g' m = epoch g' \<longleftrightarrow> m \<in> set (emission g')"
      using D(1)[of m] by (simp add: pop(2))
    show "stack_stamp g' m = epoch g' \<longleftrightarrow> m \<in> fst ` set (frames g') \<or> m \<in> set (emission g')"
      using D(2)[of m] by (auto simp: pop(1,2))
  next
    show "distinct (map fst (frames g') @ emission g')"
      using dis nn nf by (auto simp: pop(2))
    show "fst ` set (frames g') \<union> set (emission g') \<subseteq> set ns"
      using D(4) by (auto simp: pop(1,2))
    show "frames_ok (edges g') (emission g') None (frames g')"
      using fo' by (simp add: pop(2))
    show "ordered (edges g') (emission g')"
      using ord' by (simp add: pop(2))
  qed
next
  case (skip n i rest fs)
  note D = walk_invD[OF inv]
  from D(5) have fo: "frames_ok (edges g) (emission g) None ((n, i # rest) # fs)"
    by (simp add: skip(1))
  have done_i:
    "\<not> gates (edges g ! i) \<or> to_node (edges g ! i) \<in> set (emission g) \<or>
     None = Some (to_node (edges g ! i))"
  proof (cases "kind (edges g ! i) = MemberPointer")
    case True
    then show ?thesis by (simp add: gates_def)
  next
    case False
    with skip(3) have "emit_stamp g (to_node (edges g ! i)) = epoch g" by simp
    with D(1)[of "to_node (edges g ! i)"] show ?thesis by simp
  qed
  have fo': "frames_ok (edges g) (emission g) None ((n, rest) # fs)"
    by (rule frames_ok_advance[OF fo done_i])
  show ?thesis
  proof (rule walk_invI)
    fix m
    show "emit_stamp g' m = epoch g' \<longleftrightarrow> m \<in> set (emission g')"
      using D(1)[of m] by (simp add: skip(4))
    show "stack_stamp g' m = epoch g' \<longleftrightarrow> m \<in> fst ` set (frames g') \<or> m \<in> set (emission g')"
      using D(2)[of m] by (simp add: skip(1,4))
  next
    show "distinct (map fst (frames g') @ emission g')"
      using D(3) by (simp add: skip(1,4))
    show "fst ` set (frames g') \<union> set (emission g') \<subseteq> set ns"
      using D(4) by (simp add: skip(1,4))
    show "frames_ok (edges g') (emission g') None (frames g')"
      using fo' by (simp add: skip(4))
    show "ordered (edges g') (emission g')"
      using D(6) by (simp add: skip(4))
  qed
next
  case (reclass n i rest fs)
  note D = walk_invD[OF inv]
  from D(5) have fo: "frames_ok (edges g) (emission g) None ((n, i # rest) # fs)"
    by (simp add: reclass(1))
  let ?es = "(edges g)[i := (edges g ! i)\<lparr>kind := MemberPointer\<rparr>]"
  from frames_ok_index[OF fo, of i] have i: "i < length (edges g)" by simp
  have ng: "\<not> gates (?es ! i) \<or> to_node (?es ! i) \<in> set (emission g) \<or>
     None = Some (to_node (?es ! i))"
    using i by (simp add: gates_def)
  have fo': "frames_ok ?es (emission g) None ((n, rest) # fs)"
    by (rule frames_ok_advance[OF frames_ok_reclass[OF fo] ng])
  have ord': "ordered ?es (emission g)" by (rule ordered_reclass[OF D(6)])
  show ?thesis
  proof (rule walk_invI)
    fix m
    show "emit_stamp g' m = epoch g' \<longleftrightarrow> m \<in> set (emission g')"
      using D(1)[of m] by (simp add: reclass(7))
    show "stack_stamp g' m = epoch g' \<longleftrightarrow> m \<in> fst ` set (frames g') \<or> m \<in> set (emission g')"
      using D(2)[of m] by (simp add: reclass(1,7))
  next
    show "distinct (map fst (frames g') @ emission g')"
      using D(3) by (simp add: reclass(1,7))
    show "fst ` set (frames g') \<union> set (emission g') \<subseteq> set ns"
      using D(4) by (simp add: reclass(1,7))
    show "frames_ok (edges g') (emission g') None (frames g')"
      using fo' by (simp add: reclass(7))
    show "ordered (edges g') (emission g')"
      using ord' by (simp add: reclass(7))
  qed
next
  case (push n i rest fs)
  let ?d = "to_node (edges g ! i)"
  note D = walk_invD[OF inv]
  from D(5) have fo: "frames_ok (edges g) (emission g) None ((n, i # rest) # fs)"
    by (simp add: push(1))
  from push(5) D(2)[of ?d] have dn: "?d \<noteq> n" "?d \<notin> fst ` set fs" "?d \<notin> set (emission g)"
    by (auto simp: push(1))
  have fo': "frames_ok (edges g) (emission g) None
     ((?d, deps_of (edges g) ?d) # (n, rest) # fs)"
    by (rule frames_ok_push[OF fo refl])
  show ?thesis
  proof (rule walk_invI)
    fix m
    show "emit_stamp g' m = epoch g' \<longleftrightarrow> m \<in> set (emission g')"
      using D(1)[of m] by (simp add: push(6))
    show "stack_stamp g' m = epoch g' \<longleftrightarrow> m \<in> fst ` set (frames g') \<or> m \<in> set (emission g')"
      using D(2)[of m] by (auto simp: push(1,6))
  next
    show "distinct (map fst (frames g') @ emission g')"
      using D(3) dn by (auto simp: push(1,6))
    show "fst ` set (frames g') \<union> set (emission g') \<subseteq> set ns"
      using D(4) push(2) by (auto simp: push(1,6))
    show "frames_ok (edges g') (emission g') None (frames g')"
      using fo' by (simp add: push(6))
    show "ordered (edges g') (emission g')"
      using D(6) by (simp add: push(6))
  qed
qed

lemma evolves_refl: "evolves g g"
  by (simp add: evolves_def)

lemma evolves_step:
  assumes ev: "evolves g0 g" and inv: "walk_inv ns g" and st: "step ns g = Next g'"
  shows "evolves g0 g'"
  using st
proof (cases rule: step_NextE)
  case (pop n fs)
  with ev show ?thesis by (auto simp: evolves_def)
next
  case (skip n i rest fs)
  with ev show ?thesis by (auto simp: evolves_def)
next
  case (push n i rest fs)
  with ev show ?thesis by (auto simp: evolves_def)
next
  case (reclass n i rest fs)
  from walk_invD(5)[OF inv] have "frames_ok (edges g) (emission g) None ((n, i # rest) # fs)"
    by (simp add: reclass(1))
  from frames_ok_index[OF this, of i] have i: "i < length (edges g)" by simp
  let ?es = "(edges g)[i := (edges g ! i)\<lparr>kind := MemberPointer\<rparr>]"
  from ev have len: "length (edges g) = length (edges g0)" and ep: "epoch g = epoch g0"
    by (auto simp: evolves_def)
  from ev i len reclass(3) have same: "edges g ! i = edges g0 ! i"
    by (auto simp: evolves_def)
  have a: "\<forall>j < length (edges g0).
        ?es ! j = edges g0 ! j \<or>
        (kind (edges g0 ! j) = MemberValue \<and> pointer_storage (edges g0 ! j) \<and>
         ?es ! j = (edges g0 ! j)\<lparr>kind := MemberPointer\<rparr> \<and>
         j \<in> set (forward_declared g @ [i]))"
  proof (intro allI impI)
    fix j assume j: "j < length (edges g0)"
    show "?es ! j = edges g0 ! j \<or>
        (kind (edges g0 ! j) = MemberValue \<and> pointer_storage (edges g0 ! j) \<and>
         ?es ! j = (edges g0 ! j)\<lparr>kind := MemberPointer\<rparr> \<and>
         j \<in> set (forward_declared g @ [i]))"
    proof (cases "j = i")
      case True
      with i same reclass(3,4) show ?thesis by simp
    next
      case False
      with ev j show ?thesis by (auto simp: evolves_def)
    qed
  qed
  have b: "\<forall>j \<in> set (forward_declared g @ [i]).
        j \<in> set (forward_declared g0) \<or>
        (j < length (edges g0) \<and> kind (edges g0 ! j) = MemberValue \<and>
         pointer_storage (edges g0 ! j) \<and> kind (?es ! j) = MemberPointer)"
  proof
    fix j assume j: "j \<in> set (forward_declared g @ [i])"
    show "j \<in> set (forward_declared g0) \<or>
        (j < length (edges g0) \<and> kind (edges g0 ! j) = MemberValue \<and>
         pointer_storage (edges g0 ! j) \<and> kind (?es ! j) = MemberPointer)"
    proof (cases "j = i")
      case True
      with i len same reclass(3,4) show ?thesis by simp
    next
      case False
      with j have "j \<in> set (forward_declared g)" by simp
      with ev False show ?thesis by (auto simp: evolves_def)
    qed
  qed
  from ev have c: "set (emission g0) \<subseteq> set (emission g)"
    "\<forall>n. stack_stamp g0 n = epoch g0 \<longrightarrow> stack_stamp g n = epoch g0"
    by (auto simp: evolves_def)
  show ?thesis
    unfolding evolves_def reclass(7) using a b c len ep by simp
qed

lemma step_Done: "step ns g = Done \<Longrightarrow> frames g = []"
  by (auto simp: step_def Let_def split: list.splits if_splits prod.splits)

lemma evolves_edge:
  assumes "evolves g0 g" and "i < length (edges g)"
  shows "from_node (edges g ! i) = from_node (edges g0 ! i)"
    and "to_node (edges g ! i) = to_node (edges g0 ! i)"
    and "pointer_storage (edges g ! i) = pointer_storage (edges g0 ! i)"
    and "gates (edges g ! i) \<Longrightarrow> edges g ! i = edges g0 ! i"
    and "\<not> pointer_storage (edges g0 ! i) \<Longrightarrow> edges g ! i = edges g0 ! i"
proof -
  from assms have "edges g ! i = edges g0 ! i \<or>
        (kind (edges g0 ! i) = MemberValue \<and> pointer_storage (edges g0 ! i) \<and>
         edges g ! i = (edges g0 ! i)\<lparr>kind := MemberPointer\<rparr>)"
    by (auto simp: evolves_def)
  then show "from_node (edges g ! i) = from_node (edges g0 ! i)"
    and "to_node (edges g ! i) = to_node (edges g0 ! i)"
    and "pointer_storage (edges g ! i) = pointer_storage (edges g0 ! i)"
    and "gates (edges g ! i) \<Longrightarrow> edges g ! i = edges g0 ! i"
    and "\<not> pointer_storage (edges g0 ! i) \<Longrightarrow> edges g ! i = edges g0 ! i"
    by (auto simp: gates_def)
qed

lemma step_Fatal_ok:
  assumes inv: "walk_inv ns g" and ev: "evolves g0 g" and st: "step ns g = Fatal f"
  shows "fatal_ok ns g0 f"
  using st
proof (cases rule: step_FatalE)
  case (dangling n i rest fs)
  from walk_invD(5)[OF inv] have "frames_ok (edges g) (emission g) None ((n, i # rest) # fs)"
    by (simp add: dangling(1))
  from frames_ok_index[OF this, of i] have i: "i < length (edges g)" "from_node (edges g ! i) = n"
    by simp_all
  from ev have len: "length (edges g) = length (edges g0)" by (simp add: evolves_def)
  show ?thesis
    using i len dangling(2) evolves_edge(1,2)[OF ev i(1)]
    by (simp add: fatal_ok_def dangling(3))
next
  case (cycle n i rest fs)
  from walk_invD(5)[OF inv] have "frames_ok (edges g) (emission g) None ((n, i # rest) # fs)"
    by (simp add: cycle(1))
  from frames_ok_index[OF this, of i] have i: "i < length (edges g)" "from_node (edges g ! i) = n"
    by simp_all
  from ev have len: "length (edges g) = length (edges g0)" by (simp add: evolves_def)
  have same: "edges g ! i = edges g0 ! i"
    by (rule evolves_edge(4)[OF ev i(1) cycle(3)])
  show ?thesis
    using i len cycle(3,4) same by (simp add: fatal_ok_def cycle(7))
qed

lemma visit_result:
  assumes "walk_inv ns g" and "evolves g0 g"
  shows "case visit ns g of
           Inl f \<Rightarrow> fatal_ok ns g0 f
         | Inr g' \<Rightarrow> walk_inv ns g' \<and> evolves g0 g' \<and> frames g' = []"
  using assms
proof (induction ns g rule: visit.induct)
  case (1 ns g)
  show ?case
  proof (cases "step ns g")
    case Done
    with 1 step_Done[OF Done] show ?thesis by (subst visit.simps) simp
  next
    case (Fatal f)
    with step_Fatal_ok[OF "1.prems" Fatal] show ?thesis by (subst visit.simps) simp
  next
    case (Next g')
    have "walk_inv ns g'" by (rule walk_inv_step[OF "1.prems"(1) Next])
    moreover have "evolves g0 g'" by (rule evolves_step[OF "1.prems"(2,1) Next])
    ultimately have "case visit ns g' of
           Inl f \<Rightarrow> fatal_ok ns g0 f
         | Inr g'' \<Rightarrow> walk_inv ns g'' \<and> evolves g0 g'' \<and> frames g'' = []"
      by (rule "1.IH"[OF Next])
    then show ?thesis using Next by (subst visit.simps) simp
  qed
qed

lemma visit_roots_result:
  assumes "walk_inv ns g" and "frames g = []" and "evolves g0 g" and "set rs \<subseteq> set ns"
  shows "case visit_roots ns rs g of
           Inl f \<Rightarrow> fatal_ok ns g0 f
         | Inr g' \<Rightarrow> walk_inv ns g' \<and> evolves g0 g' \<and> frames g' = [] \<and>
                     set rs \<subseteq> set (emission g')"
  using assms
proof (induction rs arbitrary: g g0)
  case Nil
  then show ?case by simp
next
  case (Cons r rs)
  note D = walk_invD[OF Cons.prems(1)]
  show ?case
  proof (cases "emit_stamp g r = epoch g")
    case True
    then have r: "r \<in> set (emission g)" using D(1) by simp
    have "case visit_roots ns rs g of
           Inl f \<Rightarrow> fatal_ok ns g0 f
         | Inr g' \<Rightarrow> walk_inv ns g' \<and> evolves g0 g' \<and> frames g' = [] \<and>
                     set rs \<subseteq> set (emission g')"
      using Cons.prems by (intro Cons.IH) auto
    moreover have "r \<in> set (emission g')" if "evolves g0 g'" "visit_roots ns rs g = Inr g'" for g'
    proof -
      have "case visit_roots ns rs g of
           Inl f \<Rightarrow> fatal_ok ns g f
         | Inr g' \<Rightarrow> walk_inv ns g' \<and> evolves g g' \<and> frames g' = [] \<and>
                     set rs \<subseteq> set (emission g')"
        using Cons.prems by (intro Cons.IH[where ?g0.0 = g]) (auto simp: evolves_refl)
      with that(2) have "evolves g g'" by simp
      with r show ?thesis by (auto simp: evolves_def)
    qed
    ultimately show ?thesis using True by (auto split: sum.splits)
  next
    case False
    let ?g1 = "g\<lparr>frames := [(r, deps_of (edges g) r)],
                 stack_stamp := (stack_stamp g)(r := epoch g)\<rparr>"
    from False D(1) have rn: "r \<notin> set (emission g)" by simp
    have inv1: "walk_inv ns ?g1"
    proof (rule walk_invI)
      fix m
      show "emit_stamp ?g1 m = epoch ?g1 \<longleftrightarrow> m \<in> set (emission ?g1)"
        using D(1)[of m] by simp
      show "stack_stamp ?g1 m = epoch ?g1 \<longleftrightarrow> m \<in> fst ` set (frames ?g1) \<or> m \<in> set (emission ?g1)"
        using D(2)[of m] Cons.prems(2) by auto
    next
      show "distinct (map fst (frames ?g1) @ emission ?g1)"
        using D(3) rn by simp
      show "fst ` set (frames ?g1) \<union> set (emission ?g1) \<subseteq> set ns"
        using D(4) Cons.prems(4) by simp
      show "frames_ok (edges ?g1) (emission ?g1) None (frames ?g1)"
        by (auto simp: frames_ok.simps set_deps_of)
      show "ordered (edges ?g1) (emission ?g1)"
        using D(6) by simp
    qed
    have ev1: "evolves g0 ?g1"
      using Cons.prems(3) by (auto simp: evolves_def)
    have ev1': "evolves ?g1 ?g1" by (rule evolves_refl)
    note R0 = visit_result[OF inv1 ev1]
    note R1 = visit_result[OF inv1 ev1']
    show ?thesis
    proof (cases "visit ns ?g1")
      case (Inl f)
      with R0 False show ?thesis by simp
    next
      case (Inr g')
      with R0 R1 have g': "walk_inv ns g'" "evolves g0 g'" "frames g' = []" "evolves ?g1 g'"
        by simp_all
      from g'(4) have "stack_stamp g' r = epoch g'" by (simp add: evolves_def)
      with walk_invD(2)[OF g'(1), of r] g'(3) have r: "r \<in> set (emission g')" by simp
      have IH0: "case visit_roots ns rs g' of
           Inl f \<Rightarrow> fatal_ok ns g0 f
         | Inr g'' \<Rightarrow> walk_inv ns g'' \<and> evolves g0 g'' \<and> frames g'' = [] \<and>
                     set rs \<subseteq> set (emission g'')"
        using g' Cons.prems(4) by (intro Cons.IH) auto
      have IH1: "case visit_roots ns rs g' of
           Inl f \<Rightarrow> fatal_ok ns g' f
         | Inr g'' \<Rightarrow> walk_inv ns g'' \<and> evolves g' g'' \<and> frames g'' = [] \<and>
                     set rs \<subseteq> set (emission g'')"
        using g' Cons.prems(4) by (intro Cons.IH[where ?g0.0 = g']) (auto simp: evolves_refl)
      show ?thesis
      proof (cases "visit_roots ns rs g'")
        case (Inl f)
        with IH0 Inr False show ?thesis by simp
      next
        case (Inr g'')
        with IH1 r have "r \<in> set (emission g'')" by (auto simp: evolves_def)
        with IH0 Inr \<open>visit ns ?g1 = Inr g'\<close> False show ?thesis by simp
      qed
    qed
  qed
qed

lemma visit_all_result:
  assumes "stamps_fresh g"
  shows "case visit_all ns g of
           Inl f \<Rightarrow> fatal_ok ns g f
         | Inr g' \<Rightarrow> walk_inv ns g' \<and> frames g' = [] \<and> set (emission g') = set ns \<and>
                     evolves (g\<lparr>epoch := Suc (epoch g), frames := [], emission := []\<rparr>) g'"
proof -
  let ?g = "g\<lparr>epoch := Suc (epoch g), frames := [], emission := []\<rparr>"
  from assms have fresh: "\<And>m. stack_stamp g m \<noteq> Suc (epoch g)" "\<And>m. emit_stamp g m \<noteq> Suc (epoch g)"
    unfolding stamps_fresh_def by (metis Suc_n_not_le_n)+
  have inv: "walk_inv ns ?g"
    by (rule walk_invI) (simp_all add: fresh frames_ok.simps ordered_def)
  have R: "case visit_roots ns (sort ns) ?g of
           Inl f \<Rightarrow> fatal_ok ns ?g f
         | Inr g' \<Rightarrow> walk_inv ns g' \<and> evolves ?g g' \<and> frames g' = [] \<and>
                     set (sort ns) \<subseteq> set (emission g')"
    by (rule visit_roots_result[OF inv _ evolves_refl]) simp_all
  have f: "fatal_ok ns ?g f = fatal_ok ns g f" for f
    by (cases f) (simp_all add: fatal_ok_def)
  show ?thesis
  proof (cases "visit_roots ns (sort ns) ?g")
    case (Inl e)
    with R show ?thesis by (simp add: visit_all_def f)
  next
    case (Inr g')
    with R have g': "walk_inv ns g'" "evolves ?g g'" "frames g' = []" "set ns \<subseteq> set (emission g')"
      by simp_all
    from walk_invD(4)[OF g'(1)] g'(4) have "set (emission g') = set ns" by auto
    with g' Inr show ?thesis by (simp add: visit_all_def)
  qed
qed


lemma chained_append:
  "chained es c \<Longrightarrow> c \<noteq> [] \<Longrightarrow> to_node (es ! last c) = from_node (es ! i) \<Longrightarrow>
   chained es (c @ [i])"
  by (induction es c rule: chained.induct) auto

lemma chained_cong:
  "chained es c \<Longrightarrow> (\<And>i. i \<in> set c \<Longrightarrow> es' ! i = es ! i) \<Longrightarrow> chained es' c"
  by (induction es c rule: chained.induct) auto

lemma linked_path:
  assumes "linked es (n # ms)" and "d \<in> set (n # ms)"
  shows "d = n \<or>
     (\<exists>c. c \<noteq> [] \<and> chained es c \<and> (\<forall>i \<in> set c. i < length es \<and> gates (es ! i)) \<and>
          from_node (es ! hd c) = d \<and> to_node (es ! last c) = n)"
  using assms
proof (induction ms arbitrary: n)
  case Nil
  then show ?case by simp
next
  case (Cons m ms)
  show ?case
  proof (cases "d = n")
    case True
    then show ?thesis by simp
  next
    case False
    with Cons.prems have d: "d \<in> set (m # ms)" by simp
    from Cons.prems(1) obtain i where i: "i < length es" "from_node (es ! i) = m"
      "to_node (es ! i) = n" "gates (es ! i)" and l: "linked es (m # ms)"
      by auto
    from Cons.IH[OF l d] show ?thesis
    proof
      assume "d = m"
      with i have "[i] \<noteq> [] \<and> chained es [i] \<and> (\<forall>j \<in> set [i]. j < length es \<and> gates (es ! j)) \<and>
          from_node (es ! hd [i]) = d \<and> to_node (es ! last [i]) = n"
        by simp
      then show ?thesis by blast
    next
      assume "\<exists>c. c \<noteq> [] \<and> chained es c \<and> (\<forall>i \<in> set c. i < length es \<and> gates (es ! i)) \<and>
          from_node (es ! hd c) = d \<and> to_node (es ! last c) = m"
      then obtain c where c: "c \<noteq> []" "chained es c"
        "\<forall>i \<in> set c. i < length es \<and> gates (es ! i)"
        "from_node (es ! hd c) = d" "to_node (es ! last c) = m"
        by blast
      have "chained es (c @ [i])" by (rule chained_append[OF c(2,1)]) (simp add: c(5) i(2))
      with c i have "c @ [i] \<noteq> [] \<and> chained es (c @ [i]) \<and>
          (\<forall>j \<in> set (c @ [i]). j < length es \<and> gates (es ! j)) \<and>
          from_node (es ! hd (c @ [i])) = d \<and> to_node (es ! last (c @ [i])) = n"
        by auto
      then show ?thesis by blast
    qed
  qed
qed

lemma linked_reclass:
  assumes "linked es (n # ms)" and "\<forall>m \<in> set ms. from_node (es ! i) \<noteq> m"
  shows "linked (es[i := (es ! i)\<lparr>kind := MemberPointer\<rparr>]) (n # ms)"
  using assms
proof (induction ms arbitrary: n)
  case Nil
  then show ?case by simp
next
  case (Cons m ms)
  from Cons.prems(1) obtain j where j: "j < length es" "from_node (es ! j) = m"
      "to_node (es ! j) = n" "gates (es ! j)" and l: "linked es (m # ms)"
    by auto
  from Cons.prems(2) j(2) have "j \<noteq> i" by auto
  with j have "j < length (es[i := (es ! i)\<lparr>kind := MemberPointer\<rparr>]) \<and>
     from_node (es[i := (es ! i)\<lparr>kind := MemberPointer\<rparr>] ! j) = m \<and>
     to_node (es[i := (es ! i)\<lparr>kind := MemberPointer\<rparr>] ! j) = n \<and>
     gates (es[i := (es ! i)\<lparr>kind := MemberPointer\<rparr>] ! j)"
    by simp
  moreover have "linked (es[i := (es ! i)\<lparr>kind := MemberPointer\<rparr>]) (m # ms)"
    using Cons.prems(2) by (intro Cons.IH[OF l]) simp
  ultimately show ?case by auto
qed

lemma linked_step:
  assumes inv: "walk_inv ns g" and l: "linked (edges g) (map fst (frames g))"
    and st: "step ns g = Next g'"
  shows "linked (edges g') (map fst (frames g'))"
  using st
proof (cases rule: step_NextE)
  case (pop n fs)
  with l show ?thesis by (cases fs) auto
next
  case (skip n i rest fs)
  with l show ?thesis by simp
next
  case (reclass n i rest fs)
  note D = walk_invD[OF inv]
  from D(5) have fo: "frames_ok (edges g) (emission g) None ((n, i # rest) # fs)"
    by (simp add: reclass(1))
  from frames_ok_index[OF fo, of i] have i: "from_node (edges g ! i) = n" by simp
  from D(3) have "n \<notin> set (map fst fs)" by (simp add: reclass(1))
  with i have "\<forall>m \<in> set (map fst fs). from_node (edges g ! i) \<noteq> m" by auto
  with l have "linked ((edges g)[i := (edges g ! i)\<lparr>kind := MemberPointer\<rparr>]) (n # map fst fs)"
    by (intro linked_reclass) (simp_all add: reclass(1))
  then show ?thesis by (simp add: reclass(7))
next
  case (push n i rest fs)
  note D = walk_invD[OF inv]
  from D(5) have fo: "frames_ok (edges g) (emission g) None ((n, i # rest) # fs)"
    by (simp add: push(1))
  from frames_ok_index[OF fo, of i] have i: "i < length (edges g)" "from_node (edges g ! i) = n"
    by simp_all
  from push(3) have "gates (edges g ! i)" by (cases "kind (edges g ! i)") (auto simp: gates_def)
  with i l show ?thesis by (auto simp: push(1,6))
qed

lemma step_Fatal_cycle:
  assumes inv: "walk_inv ns g" and ev: "evolves g0 g"
    and l: "linked (edges g) (map fst (frames g))" and st: "step ns g = Fatal f"
  shows "cycle_ok g0 f"
  using st
proof (cases rule: step_FatalE)
  case (dangling n i rest fs)
  then show ?thesis by (simp add: cycle_ok_def)
next
  case (cycle n i rest fs)
  let ?d = "to_node (edges g ! i)"
  note D = walk_invD[OF inv]
  from D(5) have fo: "frames_ok (edges g) (emission g) None ((n, i # rest) # fs)"
    by (simp add: cycle(1))
  from frames_ok_index[OF fo, of i] have i: "i < length (edges g)" "from_node (edges g ! i) = n"
    by simp_all
  from ev have len: "length (edges g) = length (edges g0)" by (simp add: evolves_def)
  from D(1)[of ?d] cycle(6) have "?d \<notin> set (emission g)" by simp
  with D(2)[of ?d] cycle(5) have "?d \<in> set (n # map fst fs)" by (auto simp: cycle(1))
  moreover from l have "linked (edges g) (n # map fst fs)" by (simp add: cycle(1))
  ultimately have "?d = n \<or>
     (\<exists>c. c \<noteq> [] \<and> chained (edges g) c \<and>
          (\<forall>j \<in> set c. j < length (edges g) \<and> gates (edges g ! j)) \<and>
          from_node (edges g ! hd c) = ?d \<and> to_node (edges g ! last c) = n)"
    by (intro linked_path)
  then obtain c where c: "c \<noteq> []" "chained (edges g) c"
    "\<forall>j \<in> set c. j < length (edges g) \<and> gates (edges g ! j)"
    "to_node (edges g ! last c) = from_node (edges g ! hd c)" "last c = i"
  proof
    assume "?d = n"
    with i cycle(3) have "[i] \<noteq> [] \<and> chained (edges g) [i] \<and>
      (\<forall>j \<in> set [i]. j < length (edges g) \<and> gates (edges g ! j)) \<and>
      to_node (edges g ! last [i]) = from_node (edges g ! hd [i]) \<and> last [i] = i"
      by simp
    with that show ?thesis by blast
  next
    assume "\<exists>c. c \<noteq> [] \<and> chained (edges g) c \<and>
          (\<forall>j \<in> set c. j < length (edges g) \<and> gates (edges g ! j)) \<and>
          from_node (edges g ! hd c) = ?d \<and> to_node (edges g ! last c) = n"
    then obtain c where c: "c \<noteq> []" "chained (edges g) c"
      "\<forall>j \<in> set c. j < length (edges g) \<and> gates (edges g ! j)"
      "from_node (edges g ! hd c) = ?d" "to_node (edges g ! last c) = n"
      by blast
    have "chained (edges g) (c @ [i])"
      by (rule chained_append[OF c(2,1)]) (simp add: c(5) i(2))
    with c i cycle(3) have "c @ [i] \<noteq> [] \<and> chained (edges g) (c @ [i]) \<and>
      (\<forall>j \<in> set (c @ [i]). j < length (edges g) \<and> gates (edges g ! j)) \<and>
      to_node (edges g ! last (c @ [i])) = from_node (edges g ! hd (c @ [i])) \<and>
      last (c @ [i]) = i"
      by auto
    with that show ?thesis by blast
  qed
  have same: "edges g ! j = edges g0 ! j" if "j \<in> set c" for j
    using evolves_edge(4)[OF ev, of j] c(3) that by blast
  have hl: "hd c \<in> set c" "last c \<in> set c" using c(1) by simp_all
  have "chained (edges g0) c" by (rule chained_cong[OF c(2)]) (simp add: same)
  moreover have "list_all (\<lambda>j. j < length (edges g0) \<and> gates (edges g0 ! j)) c"
    using c(3) same len by (auto simp: list_all_iff)
  moreover have "to_node (edges g0 ! last c) = from_node (edges g0 ! hd c)"
    using c(4) same[OF hl(1)] same[OF hl(2)] by simp
  ultimately have "gating_cycle (edges g0) c" using c(1) by (simp add: gating_cycle_def)
  with c(5) show ?thesis by (auto simp: cycle_ok_def cycle(7))
qed

lemma visit_cycle:
  assumes "walk_inv ns g" and "evolves g0 g" and "linked (edges g) (map fst (frames g))"
  shows "case visit ns g of Inl f \<Rightarrow> cycle_ok g0 f | Inr g' \<Rightarrow> True"
  using assms
proof (induction ns g rule: visit.induct)
  case (1 ns g)
  show ?case
  proof (cases "step ns g")
    case Done
    then show ?thesis by (subst visit.simps) simp
  next
    case (Fatal f)
    with step_Fatal_cycle[OF "1.prems" Fatal] show ?thesis by (subst visit.simps) simp
  next
    case (Next g')
    have "case visit ns g' of Inl f \<Rightarrow> cycle_ok g0 f | Inr g'' \<Rightarrow> True"
      by (rule "1.IH"[OF Next walk_inv_step[OF "1.prems"(1) Next]
            evolves_step[OF "1.prems"(2,1) Next] linked_step[OF "1.prems"(1,3) Next]])
    then show ?thesis using Next by (subst visit.simps) simp
  qed
qed

lemma walk_inv_root:
  assumes inv: "walk_inv ns g" and fr: "frames g = []" and r: "r \<in> set ns"
    and ne: "emit_stamp g r \<noteq> epoch g"
  shows "walk_inv ns (g\<lparr>frames := [(r, deps_of (edges g) r)],
                        stack_stamp := (stack_stamp g)(r := epoch g)\<rparr>)"
proof -
  let ?g1 = "g\<lparr>frames := [(r, deps_of (edges g) r)],
                 stack_stamp := (stack_stamp g)(r := epoch g)\<rparr>"
  note D = walk_invD[OF inv]
  from ne D(1) have rn: "r \<notin> set (emission g)" by simp
  show ?thesis
  proof (rule walk_invI)
    fix m
    show "emit_stamp ?g1 m = epoch ?g1 \<longleftrightarrow> m \<in> set (emission ?g1)"
      using D(1)[of m] by simp
    show "stack_stamp ?g1 m = epoch ?g1 \<longleftrightarrow> m \<in> fst ` set (frames ?g1) \<or> m \<in> set (emission ?g1)"
      using D(2)[of m] fr by auto
  next
    show "distinct (map fst (frames ?g1) @ emission ?g1)"
      using D(3) rn by simp
    show "fst ` set (frames ?g1) \<union> set (emission ?g1) \<subseteq> set ns"
      using D(4) r by simp
    show "frames_ok (edges ?g1) (emission ?g1) None (frames ?g1)"
      by (auto simp: frames_ok.simps set_deps_of)
    show "ordered (edges ?g1) (emission ?g1)"
      using D(6) by simp
  qed
qed

lemma visit_roots_cycle:
  assumes "walk_inv ns g" and "frames g = []" and "evolves g0 g" and "set rs \<subseteq> set ns"
  shows "case visit_roots ns rs g of Inl f \<Rightarrow> cycle_ok g0 f | Inr g' \<Rightarrow> True"
  using assms
proof (induction rs arbitrary: g)
  case Nil
  then show ?case by simp
next
  case (Cons r rs)
  show ?case
  proof (cases "emit_stamp g r = epoch g")
    case True
    with Cons show ?thesis by simp
  next
    case False
    let ?g1 = "g\<lparr>frames := [(r, deps_of (edges g) r)],
                 stack_stamp := (stack_stamp g)(r := epoch g)\<rparr>"
    have inv1: "walk_inv ns ?g1"
      using Cons.prems by (intro walk_inv_root False) auto
    have ev1: "evolves g0 ?g1"
      using Cons.prems(3) by (auto simp: evolves_def)
    have l1: "linked (edges ?g1) (map fst (frames ?g1))" by simp
    note R = visit_result[OF inv1 ev1]
    note C = visit_cycle[OF inv1 ev1 l1]
    show ?thesis
    proof (cases "visit ns ?g1")
      case (Inl f)
      with C False show ?thesis by simp
    next
      case (Inr g')
      with R have "walk_inv ns g'" "evolves g0 g'" "frames g' = []" by simp_all
      then have "case visit_roots ns rs g' of Inl f \<Rightarrow> cycle_ok g0 f | Inr g'' \<Rightarrow> True"
        using Cons.prems(4) by (intro Cons.IH) auto
      with Inr False show ?thesis by simp
    qed
  qed
qed

lemma visit_all_cycle:
  assumes "stamps_fresh g"
  shows "case visit_all ns g of Inl f \<Rightarrow> cycle_ok g f | Inr g' \<Rightarrow> True"
proof -
  let ?g = "g\<lparr>epoch := Suc (epoch g), frames := [], emission := []\<rparr>"
  from assms have fresh: "\<And>m. stack_stamp g m \<noteq> Suc (epoch g)" "\<And>m. emit_stamp g m \<noteq> Suc (epoch g)"
    unfolding stamps_fresh_def by (metis Suc_n_not_le_n)+
  have inv: "walk_inv ns ?g"
    by (rule walk_invI) (simp_all add: fresh frames_ok.simps ordered_def)
  have "case visit_roots ns (sort ns) ?g of Inl f \<Rightarrow> cycle_ok ?g f | Inr g' \<Rightarrow> True"
    by (rule visit_roots_cycle[OF inv _ evolves_refl]) simp_all
  moreover have "cycle_ok ?g f = cycle_ok g f" for f
    by (cases f) (simp_all add: cycle_ok_def)
  ultimately show ?thesis by (simp add: visit_all_def split: sum.splits)
qed

lemma visit_all_returns:
  assumes "stamps_fresh g" and "\<forall>e \<in> set (edges g). to_node e \<in> set ns"
    and "\<not> (\<exists>c. gating_cycle (edges g) c)"
  shows "\<exists>g'. visit_all ns g = Inr g'"
proof (cases "visit_all ns g")
  case (Inr g')
  then show ?thesis by simp
next
  case (Inl f)
  with visit_all_result[OF assms(1), of ns] visit_all_cycle[OF assms(1), of ns]
  have ok: "fatal_ok ns g f" "cycle_ok g f" by simp_all
  show ?thesis
  proof (cases f)
    case (DanglingReference n i)
    with ok(1) have "i < length (edges g)" "to_node (edges g ! i) \<notin> set ns"
      by (simp_all add: fatal_ok_def)
    with assms(2) show ?thesis using nth_mem by blast
  next
    case (UnresolvableCycle n d i)
    with ok(2) assms(3) show ?thesis by (auto simp: cycle_ok_def)
  qed
qed

text \<open>
  C1: a walk that returns has called \<open>on_visit\<close> for every node of the node set
  exactly once, and for every edge that is \<open>member-value\<close> or \<open>inherits\<close> in the
  resulting graph (A depends on B), the emission index of B is strictly less than that
  of A. The walk leaves every edge as it was, except \<open>member-value\<close> edges with pointer
  storage, which it may reclassify. A \<open>member-pointer\<close> edge does not gate the
  ordering: the chain graph below emits node 2 before node 0, the target of its
  \<open>member-pointer\<close> edge. (By the lemma above the walk returns whenever every
  reference resolves inside the node set and no dependency cycle exists.)
\<close>

theorem visit_all_topological:
  assumes "stamps_fresh g" and "visit_all node_set g = Inr g'"
  shows "distinct (emission g') \<and> set (emission g') = set node_set \<and>
         (\<forall>i < length (edges g').
            gates (edges g' ! i) \<and> from_node (edges g' ! i) \<in> set node_set \<longrightarrow>
              emission_index (emission g') (to_node (edges g' ! i))
                < emission_index (emission g') (from_node (edges g' ! i))) \<and>
         length (edges g') = length (edges g) \<and>
         (\<forall>i < length (edges g).
            \<not> (kind (edges g ! i) = MemberValue \<and> pointer_storage (edges g ! i)) \<longrightarrow>
              edges g' ! i = edges g ! i)"
proof -
  let ?g = "g\<lparr>epoch := Suc (epoch g), frames := [], emission := []\<rparr>"
  from visit_all_result[OF assms(1), of node_set] assms(2)
  have inv: "walk_inv node_set g'" and em: "set (emission g') = set node_set"
    and ev: "evolves ?g g'"
    by simp_all
  from walk_invD(3)[OF inv] have "distinct (emission g')" by simp
  moreover from walk_invD(6)[OF inv] em
  have "\<forall>i < length (edges g').
            gates (edges g' ! i) \<and> from_node (edges g' ! i) \<in> set node_set \<longrightarrow>
              emission_index (emission g') (to_node (edges g' ! i))
                < emission_index (emission g') (from_node (edges g' ! i))"
    unfolding ordered_def by simp
  moreover from ev have len: "length (edges g') = length (edges g)"
    by (simp add: evolves_def)
  moreover have "edges g' ! i = edges g ! i"
    if "i < length (edges g)" "\<not> (kind (edges g ! i) = MemberValue \<and> pointer_storage (edges g ! i))"
    for i
    using ev that by (auto simp: evolves_def)
  ultimately show ?thesis using em by blast
qed

lemma chain_graph_order: "walk_order [2, 0, 1] chain_graph = Inr [2, 1, 0]"
  by code_simp

lemma stamps_fresh_new_graph: "stamps_fresh (new_graph es)"
  by (simp add: stamps_fresh_def new_graph_def)

theorem visit_all_topological_witness:
  "stamps_fresh (new_graph chain_graph) \<and>
   (\<exists>g'. visit_all [2, 0, 1] (new_graph chain_graph) = Inr g' \<and>
         emission g' = [2, 1, 0] \<and> set (emission g') = set [2, 0, 1] \<and>
         edges g' = chain_graph \<and>
         emission_index (emission g') 1 < emission_index (emission g') 0 \<and>
         emission_index (emission g') 2 < emission_index (emission g') 1 \<and>
         kind (edges g' ! 2) = MemberPointer \<and> from_node (edges g' ! 2) = 2 \<and>
         to_node (edges g' ! 2) = 0)"
proof -
  have f: "stamps_fresh (new_graph chain_graph)" by (rule stamps_fresh_new_graph)
  from chain_graph_order obtain g' where
    v: "visit_all [2, 0, 1] (new_graph chain_graph) = Inr g'" and e: "emission g' = [2, 1, 0]"
    by (auto simp: walk_order_def split: sum.splits)
  note T = visit_all_topological[OF f v]
  have eg: "edges (new_graph chain_graph) = chain_graph" by (simp add: new_graph_def)
  from T have len: "length (edges g') = length chain_graph" by (simp add: eg)
  from T have same: "\<And>i. i < length chain_graph \<Longrightarrow>
      \<not> (kind (chain_graph ! i) = MemberValue \<and> pointer_storage (chain_graph ! i)) \<Longrightarrow>
      edges g' ! i = chain_graph ! i"
    by (simp add: eg)
  have es: "edges g' = chain_graph"
  proof (rule nth_equalityI[OF len])
    fix i assume "i < length (edges g')"
    then have i: "i < length chain_graph" using len by simp
    then have "i = 0 \<or> i = 1 \<or> i = 2" by (auto simp: chain_graph_def)
    then have "\<not> (kind (chain_graph ! i) = MemberValue \<and> pointer_storage (chain_graph ! i))"
      by (auto simp: chain_graph_def edge_def)
    then show "edges g' ! i = chain_graph ! i" by (rule same[OF i])
  qed
  from T have s: "set (emission g') = set [2, 0, 1]" by blast
  have "emission_index [2, 1, 0] 1 < emission_index [2, 1, 0] 0"
    "emission_index [2, 1, 0] 2 < emission_index [2, 1, 0] (1::nat)"
    by (simp_all add: emission_index_def)
  moreover have "kind (chain_graph ! 2) = MemberPointer" "from_node (chain_graph ! 2) = 2"
    "to_node (chain_graph ! 2) = 0"
    by (simp_all add: chain_graph_def edge_def)
  ultimately show ?thesis using f v e s es by auto
qed







end
